theory Spec2Isabelle
  imports Main "HOL-Library.List_Lexorder" "HOL-Library.AList"
begin

section \<open>Text and the tables of the interpreter\<close>

text \<open>
  The program is \<^verbatim>\<open>update_stats.py\<close>. Its texts are Python \<^verbatim>\<open>str\<close> values: sequences of
  code points. A code point is a natural number here, \<open>cp c\<close> is the code point of an
  ASCII character and \<open>lit s\<close> the text of an ASCII literal.
\<close>

type_synonym str = "nat list"

definition cp :: "char \<Rightarrow> nat" where
  "cp c = of_char c"

definition lit :: "string \<Rightarrow> str" where
  "lit s = map cp s"

text \<open>
  What the program takes from the interpreter and its Unicode database is a parameter of
  the model: the whitespace of \<^verbatim>\<open>str.strip\<close>, the classes \<^verbatim>\<open>\w\<close> and \<^verbatim>\<open>\d\<close> of \<^verbatim>\<open>re\<close>
  on \<^verbatim>\<open>str\<close> patterns, the value of a decimal digit for \<^verbatim>\<open>int\<close>, the upper case of a
  code point (one code point or several: \<^verbatim>\<open>str.upper\<close> maps each code point on its
  own), \<^verbatim>\<open>str.lower\<close> (a function of the whole text: the lower case of a capital sigma
  depends on its place), and the limit of \<^verbatim>\<open>int\<close> on the number of digits
  (\<^verbatim>\<open>sys.get_int_max_str_digits()\<close>, 4300 unless set otherwise, 0 for no limit).
\<close>

record tables =
  isspace :: "nat \<Rightarrow> bool"
  isword :: "nat \<Rightarrow> bool"
  isdecimal :: "nat \<Rightarrow> bool"
  decimal :: "nat \<Rightarrow> nat"
  upper_char :: "nat \<Rightarrow> str"
  lower :: "str \<Rightarrow> str"
  max_str_digits :: nat

definition upper :: "tables \<Rightarrow> str \<Rightarrow> str" where
  \<comment> \<open>\<^verbatim>\<open>s.upper()\<close>\<close>
  "upper T s = concat (map (upper_char T) s)"

definition strip :: "tables \<Rightarrow> str \<Rightarrow> str" where
  \<comment> \<open>\<^verbatim>\<open>s.strip()\<close>: leading and trailing whitespace removed\<close>
  "strip T s = rev (dropWhile (isspace T) (rev (dropWhile (isspace T) s)))"

datatype error = ProtocolError str | ValueError
  \<comment> \<open>\<^verbatim>\<open>print(f"Error de QRZ: {msg}"); sys.exit(1)\<close>, with \<^verbatim>\<open>msg\<close>; the exception of
      \<^verbatim>\<open>int\<close>, which nothing catches\<close>

definition digits_value :: "tables \<Rightarrow> str \<Rightarrow> nat" where
  \<comment> \<open>the number that a run of decimal digits writes\<close>
  "digits_value T ds = foldl (\<lambda>n c. 10 * n + decimal T c) 0 ds"

definition int_of_digits :: "tables \<Rightarrow> str \<Rightarrow> error + nat" where
  \<comment> \<open>\<^verbatim>\<open>int(length)\<close> on a non-empty run of decimal digits: \<^verbatim>\<open>ValueError\<close> when there
      is a limit and the run has more digits\<close>
  "int_of_digits T ds =
     (if 0 < max_str_digits T \<and> max_str_digits T < length ds then Inl ValueError
      else Inr (digits_value T ds))"

definition starts_with :: "'a list \<Rightarrow> 'a list \<Rightarrow> bool" where
  \<comment> \<open>\<^verbatim>\<open>s.startswith(p)\<close>\<close>
  "starts_with p s = (take (length p) s = p)"

fun contains :: "'a list \<Rightarrow> 'a list \<Rightarrow> bool" where
  \<comment> \<open>\<^verbatim>\<open>p in s\<close>\<close>
  "contains p [] = (p = [])"
| "contains p (c # cs) = (starts_with p (c # cs) \<or> contains p cs)"

type_synonym qso = "(str \<times> str) list"
  \<comment> \<open>a Python \<^verbatim>\<open>dict\<close> from field name to value, in insertion order\<close>

definition get :: "qso \<Rightarrow> str \<Rightarrow> str \<Rightarrow> str" where
  \<comment> \<open>\<^verbatim>\<open>d.get(k, default)\<close>\<close>
  "get d k dflt = (case map_of d k of Some v \<Rightarrow> v | None \<Rightarrow> dflt)"

section \<open>The ADIF parser\<close>

subsection \<open>The regular expressions\<close>

fun search_reason :: "str \<Rightarrow> str option" where
  \<comment> \<open>group 1 of \<^verbatim>\<open>re.search(r"REASON=([^&]+)", raw)\<close>: the leftmost \<^verbatim>\<open>REASON=\<close>
      that a character other than \<^verbatim>\<open>&\<close> follows, and the longest run of such characters\<close>
  "search_reason [] = None"
| "search_reason (c # cs) =
     (if starts_with (lit ''REASON='') (c # cs)
         \<and> takeWhile (\<lambda>x. x \<noteq> cp CHR ''&'') (drop 7 (c # cs)) \<noteq> []
      then Some (takeWhile (\<lambda>x. x \<noteq> cp CHR ''&'') (drop 7 (c # cs)))
      else search_reason cs)"

fun search_adif :: "str \<Rightarrow> str option" where
  \<comment> \<open>group 1 of \<^verbatim>\<open>re.search(r"ADIF=(.*)", raw, re.DOTALL)\<close>: all the text after the
      leftmost \<^verbatim>\<open>ADIF=\<close>\<close>
  "search_adif [] = None"
| "search_adif (c # cs) =
     (if starts_with (lit ''ADIF='') (c # cs) then Some (drop 5 (c # cs)) else search_adif cs)"

definition ascii_lower :: "nat \<Rightarrow> nat" where
  \<comment> \<open>\<^verbatim>\<open>A\<close> to \<^verbatim>\<open>Z\<close> become \<^verbatim>\<open>a\<close> to \<^verbatim>\<open>z\<close>\<close>
  "ascii_lower c = (if 65 \<le> c \<and> c \<le> 90 then c + 32 else c)"

definition is_eor :: "str \<Rightarrow> bool" where
  \<comment> \<open>\<^verbatim>\<open><eor>\<close> matches here under \<^verbatim>\<open>re.IGNORECASE\<close>: the letters \<^verbatim>\<open>e\<close>, \<^verbatim>\<open>o\<close>, \<^verbatim>\<open>r\<close>
      match themselves and their capitals, and no other code point\<close>
  "is_eor s = (map ascii_lower (take 5 s) = lit ''<eor>'')"

function split_from :: "str \<Rightarrow> str \<Rightarrow> str list" where
  \<comment> \<open>the scan of \<^verbatim>\<open>re.split\<close>: \<open>chunk\<close> is the text since the last marker\<close>
  "split_from chunk [] = [chunk]"
| "split_from chunk (c # cs) =
     (if is_eor (c # cs) then chunk # split_from [] (drop 4 cs)
      else split_from (chunk @ [c]) cs)"
  by pat_completeness auto
termination
  by (relation "measure (\<lambda>(chunk, s). length s)") auto

definition split_eor :: "str \<Rightarrow> str list" where
  \<comment> \<open>\<^verbatim>\<open>re.split(r"<eor>", adif_data, flags=re.IGNORECASE)\<close>\<close>
  "split_eor s = split_from [] s"

definition after_length :: "tables \<Rightarrow> str \<Rightarrow> str option" where
  \<comment> \<open>\<^verbatim>\<open>(?::\w+)?>\<close>: an optional type, then the closing bracket; the text after it\<close>
  "after_length T s =
     (case s of
        [] \<Rightarrow> None
      | c # r \<Rightarrow>
          if c = cp CHR ''>'' then Some r
          else if c = cp CHR '':'' \<and> takeWhile (isword T) r \<noteq> [] then
            (case dropWhile (isword T) r of
               [] \<Rightarrow> None
             | d # r' \<Rightarrow> if d = cp CHR ''>'' then Some r' else None)
          else None)"

definition match_field :: "tables \<Rightarrow> str \<Rightarrow> ((str \<times> str \<times> str) \<times> str) option" where
  \<comment> \<open>\<^verbatim>\<open><(\w+):(\d+)(?::\w+)?>([^<]*)\<close> matched at the start of the text: the three
      groups and the text after the match\<close>
  "match_field T s =
     (case s of
        [] \<Rightarrow> None
      | c # s1 \<Rightarrow>
          if c \<noteq> cp CHR ''<'' \<or> takeWhile (isword T) s1 = [] then None
          else
            (case dropWhile (isword T) s1 of
               [] \<Rightarrow> None
             | d # s2 \<Rightarrow>
                 if d \<noteq> cp CHR '':'' \<or> takeWhile (isdecimal T) s2 = [] then None
                 else
                   (case after_length T (dropWhile (isdecimal T) s2) of
                      None \<Rightarrow> None
                    | Some s3 \<Rightarrow>
                        Some ((takeWhile (isword T) s1, takeWhile (isdecimal T) s2,
                               takeWhile (\<lambda>x. x \<noteq> cp CHR ''<'') s3),
                              dropWhile (\<lambda>x. x \<noteq> cp CHR ''<'') s3))))"

lemma after_length_shorter: "after_length T s = Some r \<Longrightarrow> length r < length s"
proof -
  assume a: "after_length T s = Some r"
  have dw: "\<And>P (xs :: str). length (dropWhile P xs) \<le> length xs"
    by (simp add: length_dropWhile_le)
  show ?thesis
  proof (cases s)
    case Nil
    with a show ?thesis by (simp add: after_length_def)
  next
    case (Cons c t)
    show ?thesis
    proof (cases "c = cp CHR ''>''")
      case True
      with a Cons show ?thesis by (simp add: after_length_def)
    next
      case False
      with a Cons obtain d where "dropWhile (isword T) t = d # r"
        by (auto simp: after_length_def split: if_splits list.splits)
      then have "length r < length (dropWhile (isword T) t)" by simp
      also have "\<dots> \<le> length t" by (rule dw)
      finally show ?thesis using Cons by simp
    qed
  qed
qed

lemma match_field_shorter: "match_field T s = Some (g, r) \<Longrightarrow> length r < length s"
proof -
  assume a: "match_field T s = Some (g, r)"
  have dw: "\<And>P (xs :: str). length (dropWhile P xs) \<le> length xs"
    by (simp add: length_dropWhile_le)
  from a obtain c s1 where s: "s = c # s1"
    by (cases s) (auto simp: match_field_def)
  from a s obtain d s2 where s1: "dropWhile (isword T) s1 = d # s2"
    by (auto simp: match_field_def split: if_splits list.splits)
  from a s s1 obtain s3 where s3: "after_length T (dropWhile (isdecimal T) s2) = Some s3"
    and r: "r = dropWhile (\<lambda>x. x \<noteq> cp CHR ''<'') s3"
    by (auto simp: match_field_def split: if_splits option.splits)
  have "length r \<le> length s3" unfolding r by (rule dw)
  also have "\<dots> < length (dropWhile (isdecimal T) s2)" by (rule after_length_shorter [OF s3])
  also have "\<dots> \<le> length s2" by (rule dw)
  also have "\<dots> < length (dropWhile (isword T) s1)" by (simp add: s1)
  also have "\<dots> \<le> length s1" by (rule dw)
  finally show ?thesis by (simp add: s)
qed

function findall_fields :: "tables \<Rightarrow> str \<Rightarrow> (str \<times> str \<times> str) list" where
  \<comment> \<open>\<^verbatim>\<open>re.findall(r"<(\w+):(\d+)(?::\w+)?>([^<]*)", record, re.IGNORECASE)\<close>: the matches
      from left to right, each search starting where the last match ended\<close>
  "findall_fields T [] = []"
| "findall_fields T (c # cs) =
     (case match_field T (c # cs) of
        Some (g, r) \<Rightarrow> g # findall_fields T r
      | None \<Rightarrow> findall_fields T cs)"
  by pat_completeness auto
termination
  by (relation "measure (\<lambda>(T, s). length s)") (auto dest: match_field_shorter)

subsection \<open>\<^verbatim>\<open>parse_adif\<close>\<close>

fun build_qso :: "tables \<Rightarrow> (str \<times> str \<times> str) list \<Rightarrow> qso \<Rightarrow> error + qso" where
  \<comment> \<open>\<^verbatim>\<open>for name, length, value in fields: qso[name.upper()] = value[:int(length)].strip()\<close>\<close>
  "build_qso T [] qso = Inr qso"
| "build_qso T ((name, len, val) # fs) qso =
     (case int_of_digits T len of
        Inl e \<Rightarrow> Inl e
      | Inr n \<Rightarrow> build_qso T fs (AList.update (upper T name) (strip T (take n val)) qso))"

fun parse_records :: "tables \<Rightarrow> str list \<Rightarrow> qso list \<Rightarrow> error + qso list" where
  \<comment> \<open>\<^verbatim>\<open>for record in records: ...\<close>, with the list \<^verbatim>\<open>qsos\<close> built so far\<close>
  "parse_records T [] qsos = Inr qsos"
| "parse_records T (record # records) qsos =
     (if strip T record = [] then parse_records T records qsos
      else
        (case build_qso T (findall_fields T record) [] of
           Inl e \<Rightarrow> Inl e
         | Inr qso \<Rightarrow>
             if qso \<noteq> [] then parse_records T records (qsos @ [qso])
             else parse_records T records qsos))"

definition adif_payload :: "(str \<Rightarrow> str) \<Rightarrow> str \<Rightarrow> str" where
  \<comment> \<open>\<^verbatim>\<open>adif_data\<close>; \<^verbatim>\<open>urllib.parse.unquote\<close> of the standard library is the
      parameter \<open>unquote\<close>\<close>
  "adif_payload unquote raw =
     (case search_adif raw of
        None \<Rightarrow> raw
      | Some g \<Rightarrow> unquote g)"

definition parse_adif :: "tables \<Rightarrow> (str \<Rightarrow> str) \<Rightarrow> str \<Rightarrow> error + qso list" where
  "parse_adif T unquote raw =
     (if contains (lit ''RESULT=FAIL'') raw then
        Inl (ProtocolError (case search_reason raw of
                              Some msg \<Rightarrow> msg
                            | None \<Rightarrow> lit ''desconocido''))
      else parse_records T (split_eor (adif_payload unquote raw)) [])"

section \<open>The statistics\<close>

record stats =
  total_qsos :: nat
  countries :: nat
  bands :: nat
  modes :: nat
  country_list :: "str list"
  band_list :: "str list"
  mode_list :: "str list"

definition country_of :: "qso \<Rightarrow> str" where
  \<comment> \<open>\<^verbatim>\<open>qso.get("COUNTRY", "") or qso.get("DXCC", "")\<close>\<close>
  "country_of qso =
     (if get qso (lit ''COUNTRY'') [] \<noteq> [] then get qso (lit ''COUNTRY'') []
      else get qso (lit ''DXCC'') [])"

fun stats_loop ::
  "tables \<Rightarrow> qso list \<Rightarrow> str set \<times> str set \<times> str set \<Rightarrow> str set \<times> str set \<times> str set"
where
  \<comment> \<open>\<^verbatim>\<open>for qso in qsos: ...\<close> on the sets \<^verbatim>\<open>countries\<close>, \<^verbatim>\<open>bands\<close>, \<^verbatim>\<open>modes\<close>\<close>
  "stats_loop T [] sets = sets"
| "stats_loop T (qso # qsos) (cs, bs, ms) =
     stats_loop T qsos
       (if country_of qso \<noteq> [] then insert (country_of qso) cs else cs,
        if get qso (lit ''BAND'') [] \<noteq> []
        then insert (lower T (get qso (lit ''BAND'') [])) bs else bs,
        if get qso (lit ''MODE'') [] \<noteq> []
        then insert (upper T (get qso (lit ''MODE'') [])) ms else ms)"

definition compute_stats :: "tables \<Rightarrow> qso list \<Rightarrow> stats" where
  "compute_stats T qsos =
     (case stats_loop T qsos ({}, {}, {}) of
        (cs, bs, ms) \<Rightarrow>
          \<lparr>total_qsos = length qsos,
           countries = card cs,
           bands = card bs,
           modes = card ms,
           country_list = sorted_list_of_set cs,
           band_list = sorted_list_of_set bs,
           mode_list = sorted_list_of_set ms\<rparr>)"

section \<open>The logbook export\<close>

definition slice :: "nat \<Rightarrow> nat \<Rightarrow> str \<Rightarrow> str" where
  \<comment> \<open>\<^verbatim>\<open>s[i:j]\<close>\<close>
  "slice i j s = take (j - i) (drop i s)"

definition format_date :: "str \<Rightarrow> str" where
  \<comment> \<open>\<^verbatim>\<open>if len(date) == 8: date = f"{date[6:8]}/{date[4:6]}/{date[0:4]}"\<close>\<close>
  "format_date date =
     (if length date = 8
      then slice 6 8 date @ lit ''/'' @ slice 4 6 date @ lit ''/'' @ slice 0 4 date
      else date)"

definition csv_row :: "tables \<Rightarrow> qso \<Rightarrow> str" where
  \<comment> \<open>\<^verbatim>\<open>f"{call},{date},{band},{mode}"\<close>\<close>
  "csv_row T qso =
     upper T (get qso (lit ''CALL'') []) @ lit '','' @ format_date (get qso (lit ''QSO_DATE'') [])
       @ lit '','' @ get qso (lit ''BAND'') (lit ''?'') @ lit '',''
       @ get qso (lit ''MODE'') (lit ''?'')"

fun csv_loop :: "tables \<Rightarrow> qso list \<Rightarrow> str list \<Rightarrow> str list" where
  \<comment> \<open>\<^verbatim>\<open>for qso in qsos: ...\<close> on the list \<^verbatim>\<open>lines\<close>\<close>
  "csv_loop T [] lines = lines"
| "csv_loop T (qso # qsos) lines =
     (if upper T (get qso (lit ''CALL'') []) = [] then csv_loop T qsos lines
      else csv_loop T qsos (lines @ [csv_row T qso]))"

definition csv_lines :: "tables \<Rightarrow> qso list \<Rightarrow> str list" where
  \<comment> \<open>\<^verbatim>\<open>lines\<close> when the loop has ended\<close>
  "csv_lines T qsos = csv_loop T qsos [lit ''indicativo,fecha,banda,modo'']"

fun join :: "str \<Rightarrow> str list \<Rightarrow> str" where
  \<comment> \<open>\<^verbatim>\<open>sep.join(xs)\<close>\<close>
  "join sep [] = []"
| "join sep [x] = x"
| "join sep (x # y # ys) = x @ sep @ join sep (y # ys)"

definition newline :: str where
  "newline = [10]"

definition build_logbook_csv :: "tables \<Rightarrow> qso list \<Rightarrow> str" where
  "build_logbook_csv T qsos = join newline (csv_lines T qsos) @ newline"

section \<open>Notions of the specification\<close>

text \<open>
  A field is tagged \<^verbatim>\<open><NAME:LENGTH>\<close> or \<^verbatim>\<open><NAME:LENGTH:TYPE>\<close>, name and type made of
  word characters, the length of decimal digits. \<open>ty\<close> is the empty text or the colon
  with the type.
\<close>

definition tag :: "str \<Rightarrow> str \<Rightarrow> str \<Rightarrow> str" where
  "tag name len ty = lit ''<'' @ name @ lit '':'' @ len @ ty @ lit ''>''"

definition well_formed_tag :: "tables \<Rightarrow> str \<Rightarrow> str \<Rightarrow> str \<Rightarrow> bool" where
  "well_formed_tag T name len ty =
     (name \<noteq> [] \<and> list_all (isword T) name \<and> len \<noteq> [] \<and> list_all (isdecimal T) len
      \<and> (ty = [] \<or> (hd ty = cp CHR '':'' \<and> tl ty \<noteq> [] \<and> list_all (isword T) (tl ty))))"

text \<open>
  The last field of a chunk whose name is \<open>k\<close> once in upper case, if there is one.
\<close>

definition last_field ::
  "tables \<Rightarrow> str \<Rightarrow> (str \<times> str \<times> str) list \<Rightarrow> (str \<times> str \<times> str) option"
where
  "last_field T k fs = find (\<lambda>(name, len, val). upper T name = k) (rev fs)"


text \<open>
  A declared length has more digits than \<^verbatim>\<open>int\<close> converts.
\<close>

definition too_many_digits :: "tables \<Rightarrow> str \<Rightarrow> bool" where
  "too_many_digits T len = (0 < max_str_digits T \<and> max_str_digits T < length len)"

text \<open>
  A chunk that is not made of whitespace only and has a field whose declared length has
  too many digits.
\<close>

definition overlong :: "tables \<Rightarrow> str \<Rightarrow> bool" where
  "overlong T chunk =
     (\<not> list_all (isspace T) chunk
      \<and> list_ex (\<lambda>(name, len, val). too_many_digits T len) (findall_fields T chunk))"

text \<open>
  What holds of the tables of every Python 3 interpreter and is used below. On the ASCII
  range: the whitespace is TAB, LF, VT, FF, CR, FS, GS, RS, US and the space; the word
  characters are the letters, the digits and the underscore; the decimal digits are
  \<^verbatim>\<open>0\<close> to \<^verbatim>\<open>9\<close> with their values; the upper case maps \<^verbatim>\<open>a\<close> to \<^verbatim>\<open>z\<close> to \<^verbatim>\<open>A\<close> to \<^verbatim>\<open>Z\<close>
  and nothing else; the lower case of an ASCII text maps \<^verbatim>\<open>A\<close> to \<^verbatim>\<open>Z\<close> to \<^verbatim>\<open>a\<close> to
  \<^verbatim>\<open>z\<close> and nothing else. On all code points: the upper case of a code point is not
  empty, and is its own upper case. The limit on the digits of \<^verbatim>\<open>int\<close> is 0 or at least
  640.
\<close>

definition ascii_space :: "nat \<Rightarrow> bool" where
  "ascii_space c = ((9 \<le> c \<and> c \<le> 13) \<or> (28 \<le> c \<and> c \<le> 32))"

definition ascii_digit :: "nat \<Rightarrow> bool" where
  "ascii_digit c = (48 \<le> c \<and> c \<le> 57)"

definition ascii_word :: "nat \<Rightarrow> bool" where
  "ascii_word c = ((97 \<le> c \<and> c \<le> 122) \<or> (65 \<le> c \<and> c \<le> 90) \<or> ascii_digit c \<or> c = 95)"

definition ascii_upper :: "nat \<Rightarrow> nat" where
  "ascii_upper c = (if 97 \<le> c \<and> c \<le> 122 then c - 32 else c)"

definition python_tables :: "tables \<Rightarrow> bool" where
  "python_tables T =
     ((\<forall>c < 128. isspace T c = ascii_space c \<and> isword T c = ascii_word c
          \<and> isdecimal T c = ascii_digit c \<and> upper_char T c = [ascii_upper c])
      \<and> (\<forall>c. ascii_digit c \<longrightarrow> decimal T c = c - 48)
      \<and> (\<forall>s. list_all (\<lambda>c. c < 128) s \<longrightarrow> lower T s = map ascii_lower s)
      \<and> (\<forall>c. upper_char T c \<noteq> [])
      \<and> (\<forall>c. upper T (upper_char T c) = upper_char T c)
      \<and> (max_str_digits T = 0 \<or> 640 \<le> max_str_digits T))"

text \<open>
  Tables for the examples: those of Python on the ASCII range, on the Latin-1 code points
  NEL (U+0085), NBSP (U+00A0), \<^verbatim>\<open>E\<close> and \<^verbatim>\<open>e\<close> with acute (U+00C9, U+00E9) and sharp s
  (U+00DF), and on the Arabic-Indic digit three (U+0663), with the limit of 4300 digits.
\<close>

definition sample_tables :: tables where
  "sample_tables =
     \<lparr>isspace = (\<lambda>c. ascii_space c \<or> c = 0x85 \<or> c = 0xA0),
      isword = (\<lambda>c. ascii_word c \<or> c = 0xC9 \<or> c = 0xE9 \<or> c = 0xDF \<or> c = 0x663),
      isdecimal = (\<lambda>c. ascii_digit c \<or> c = 0x663),
      decimal = (\<lambda>c. if c = 0x663 then 3 else c - 48),
      upper_char = (\<lambda>c. if c = 0xE9 then [0xC9] else if c = 0xDF then [0x53, 0x53]
                         else [ascii_upper c]),
      lower = map (\<lambda>c. if c = 0xC9 then 0xE9 else ascii_lower c),
      max_str_digits = 4300\<rparr>"

section \<open>Lemmas\<close>

subsection \<open>Text\<close>

lemma lit_simps [simp]: "lit [] = []" "lit (c # s) = cp c # lit s"
  by (simp_all add: lit_def)

lemma cp_eq_iff [simp]: "cp a = cp b \<longleftrightarrow> a = b"
  by (simp add: cp_def)

lemma starts_with_iff: "starts_with p s \<longleftrightarrow> (\<exists>b. s = p @ b)"
  unfolding starts_with_def
  by (metis append_eq_conv_conj append_take_drop_id)

lemma contains_iff: "contains p s \<longleftrightarrow> (\<exists>a b. s = a @ p @ b)"
proof (induction s)
  case Nil
  then show ?case by auto
next
  case (Cons c cs)
  show ?case
  proof
    assume "contains p (c # cs)"
    then consider "starts_with p (c # cs)" | "contains p cs" by auto
    then show "\<exists>a b. c # cs = a @ p @ b"
    proof cases
      case 1
      then obtain b where "c # cs = p @ b" by (auto simp: starts_with_iff)
      then have "c # cs = [] @ p @ b" by simp
      then show ?thesis by blast
    next
      case 2
      with Cons obtain a b where "cs = a @ p @ b" by blast
      then have "c # cs = (c # a) @ p @ b" by simp
      then show ?thesis by blast
    qed
  next
    assume "\<exists>a b. c # cs = a @ p @ b"
    then obtain a b where ab: "c # cs = a @ p @ b" by blast
    show "contains p (c # cs)"
    proof (cases a)
      case Nil
      with ab have "starts_with p (c # cs)" by (auto simp: starts_with_iff)
      then show ?thesis by simp
    next
      case (Cons a0 a')
      with ab have "cs = a' @ p @ b" by simp
      with Cons.IH have "contains p cs" by blast
      then show ?thesis by simp
    qed
  qed
qed

lemma all_dropWhile: "(\<forall>x\<in>set (dropWhile P xs). P x) \<longleftrightarrow> (\<forall>x\<in>set xs. P x)"
  by (induction xs) auto

lemma strip_empty_iff: "strip T s = [] \<longleftrightarrow> list_all (isspace T) s"
  by (simp add: strip_def all_dropWhile list_all_iff)

lemma strip_not_space:
  "strip T s \<noteq> [] \<Longrightarrow> \<not> isspace T (hd (strip T s)) \<and> \<not> isspace T (last (strip T s))"
proof -
  assume ne: "strip T s \<noteq> []"
  let ?t = "dropWhile (isspace T) (rev (dropWhile (isspace T) s))"
  from ne have t: "?t \<noteq> []" by (simp add: strip_def)
  then have h: "\<not> isspace T (hd ?t)" by (rule hd_dropWhile)
  from t have "last (strip T s) = hd ?t" by (simp add: strip_def last_rev)
  with h have l: "\<not> isspace T (last (strip T s))" by simp
  from t have d: "dropWhile (isspace T) s \<noteq> []" by (cases "dropWhile (isspace T) s") auto
  then have hd: "\<not> isspace T (hd (dropWhile (isspace T) s))" by (rule hd_dropWhile)
  have "rev (dropWhile (isspace T) s) = takeWhile (isspace T) (rev (dropWhile (isspace T) s)) @ ?t"
    by simp
  then have "dropWhile (isspace T) s = rev ?t @ rev (takeWhile (isspace T) (rev (dropWhile (isspace T) s)))"
    by (metis rev_append rev_rev_ident)
  then have "hd (dropWhile (isspace T) s) = hd (rev ?t)" using t by (metis hd_append2 rev_is_Nil_conv)
  with hd have "\<not> isspace T (hd (strip T s))" by (simp add: strip_def)
  with l show ?thesis by simp
qed

lemma strip_idem: "strip T (strip T s) = strip T s"
proof (cases "strip T s = []")
  case True
  then show ?thesis by (simp add: strip_def [of T "[]"])
next
  case False
  from strip_not_space [OF False] have h: "\<not> isspace T (hd (strip T s))" and l: "\<not> isspace T (last (strip T s))"
    by auto
  from False h have a: "dropWhile (isspace T) (strip T s) = strip T s"
    by (cases "strip T s") auto
  from False l have b: "dropWhile (isspace T) (rev (strip T s)) = rev (strip T s)"
    by (cases "rev (strip T s)") (auto simp: last_rev hd_rev)
  show ?thesis unfolding strip_def [of T "strip T s"] a b by simp
qed

lemma set_strip: "set (strip T s) \<subseteq> set s"
  by (auto simp: strip_def dest!: set_dropWhileD)

lemma length_strip: "length (strip T s) \<le> length s"
  unfolding strip_def
  by (metis length_dropWhile_le length_rev order_trans)

subsection \<open>The searches in the envelope\<close>

lemma search_adif_None_iff: "search_adif s = None \<longleftrightarrow> \<not> contains (lit ''ADIF='') s"
  by (induction s) auto

lemma starts_with_append_long:
  "length p \<le> length xs \<Longrightarrow> starts_with p (xs @ ys) = starts_with p xs"
  by (simp add: starts_with_def)

lemma search_adif_skip:
  "\<not> starts_with (lit ''ADIF='') (c # cs) \<Longrightarrow> search_adif (c # cs) = search_adif cs"
  by simp

lemma search_adif_first:
  "\<not> contains (lit ''ADIF='') (pre @ (lit ''ADIF'')) \<Longrightarrow> search_adif (pre @ (lit ''ADIF='') @ rest) = Some rest"
proof (induction pre)
  case Nil
  then show ?case by (simp add: starts_with_def)
next
  case (Cons c p)
  from Cons.prems have ns: "\<not> starts_with (lit ''ADIF='') ((c # p) @ (lit ''ADIF''))"
    and nc: "\<not> contains (lit ''ADIF='') (p @ (lit ''ADIF''))" by auto
  have e: "c # (p @ (lit ''ADIF='') @ rest) = ((c # p) @ (lit ''ADIF'')) @ ((lit ''='') @ rest)"
    by simp
  have "starts_with (lit ''ADIF='') (((c # p) @ (lit ''ADIF'')) @ ((lit ''='') @ rest))
      = starts_with (lit ''ADIF='') ((c # p) @ (lit ''ADIF''))"
    by (rule starts_with_append_long) simp
  with ns have "\<not> starts_with (lit ''ADIF='') (c # (p @ (lit ''ADIF='') @ rest))"
    unfolding e by blast
  then have "search_adif (c # (p @ (lit ''ADIF='') @ rest)) = search_adif (p @ (lit ''ADIF='') @ rest)"
    by (rule search_adif_skip)
  with Cons.IH [OF nc] show ?case by (simp only: append_Cons)
qed

lemma takeWhile_ne_Nil: "takeWhile P t \<noteq> [] \<longleftrightarrow> t \<noteq> [] \<and> P (hd t)"
  by (cases t) auto

lemma search_reason_None_iff:
  "search_reason s = None \<longleftrightarrow> (\<forall>p t. s = p @ (lit ''REASON='') @ t \<longrightarrow> t = [] \<or> hd t = cp CHR ''&'')"
proof (induction s)
  case Nil
  then show ?case by simp
next
  case (Cons c cs)
  let ?ok = "\<lambda>s. \<forall>p t. s = p @ (lit ''REASON='') @ t \<longrightarrow> t = [] \<or> hd t = cp CHR ''&''"
  have step: "?ok (c # cs) \<longleftrightarrow>
      (\<forall>t. c # cs = (lit ''REASON='') @ t \<longrightarrow> t = [] \<or> hd t = cp CHR ''&'') \<and> ?ok cs"
  proof
    assume a: "?ok (c # cs)"
    have "?ok cs"
    proof (intro allI impI)
      fix p t assume "cs = p @ (lit ''REASON='') @ t"
      then have "c # cs = (c # p) @ (lit ''REASON='') @ t" by simp
      with a show "t = [] \<or> hd t = cp CHR ''&''" by blast
    qed
    moreover have "\<forall>t. c # cs = (lit ''REASON='') @ t \<longrightarrow> t = [] \<or> hd t = cp CHR ''&''"
    proof (intro allI impI)
      fix t assume "c # cs = (lit ''REASON='') @ t"
      then have "c # cs = [] @ (lit ''REASON='') @ t" by simp
      with a show "t = [] \<or> hd t = cp CHR ''&''" by blast
    qed
    ultimately show "(\<forall>t. c # cs = (lit ''REASON='') @ t \<longrightarrow> t = [] \<or> hd t = cp CHR ''&'') \<and> ?ok cs"
      by simp
  next
    assume a: "(\<forall>t. c # cs = (lit ''REASON='') @ t \<longrightarrow> t = [] \<or> hd t = cp CHR ''&'') \<and> ?ok cs"
    show "?ok (c # cs)"
    proof (intro allI impI)
      fix p t assume e: "c # cs = p @ (lit ''REASON='') @ t"
      show "t = [] \<or> hd t = cp CHR ''&''"
      proof (cases p)
        case Nil
        with e a show ?thesis by simp
      next
        case (Cons p0 p')
        with e have "cs = p' @ (lit ''REASON='') @ t" by simp
        with a show ?thesis by blast
      qed
    qed
  qed
  have here: "(starts_with (lit ''REASON='') (c # cs)
         \<and> takeWhile (\<lambda>x. x \<noteq> cp CHR ''&'') (drop 7 (c # cs)) \<noteq> [])
      \<longleftrightarrow> \<not> (\<forall>t. c # cs = (lit ''REASON='') @ t \<longrightarrow> t = [] \<or> hd t = cp CHR ''&'')"
  proof (cases "starts_with (lit ''REASON='') (c # cs)")
    case True
    then obtain b where b: "c # cs = (lit ''REASON='') @ b" by (auto simp: starts_with_iff)
    then have d: "drop 7 (c # cs) = b" by simp
    show ?thesis unfolding d using True b by (auto simp: takeWhile_ne_Nil)
  next
    case False
    then show ?thesis by (auto simp: starts_with_iff)
  qed
  show ?case
    unfolding step using here Cons.IH by (simp del: drop_Suc_Cons)
qed

lemma search_reason_first:
  assumes "reason \<noteq> []" and "cp CHR ''&'' \<notin> set reason" and "rest = [] \<or> hd rest = cp CHR ''&''"
    and "\<forall>p t. pre @ (lit ''REASON='') @ reason @ rest = p @ (lit ''REASON='') @ t \<and> length p < length pre
           \<longrightarrow> t = [] \<or> hd t = cp CHR ''&''"
  shows "search_reason (pre @ (lit ''REASON='') @ reason @ rest) = Some reason"
  using assms(4)
proof (induction pre)
  case Nil
  have "takeWhile (\<lambda>x. x \<noteq> cp CHR ''&'') (reason @ rest) = reason"
    using assms(2,3) by (cases rest) (auto simp: takeWhile_append)
  with assms(1) show ?case by (simp add: starts_with_def)
next
  case (Cons c p)
  let ?raw = "(c # p) @ (lit ''REASON='') @ reason @ rest"
  have not_here: "\<not> (starts_with (lit ''REASON='') ?raw
         \<and> takeWhile (\<lambda>x. x \<noteq> cp CHR ''&'') (drop 7 ?raw) \<noteq> [])"
  proof
    assume a: "starts_with (lit ''REASON='') ?raw \<and> takeWhile (\<lambda>x. x \<noteq> cp CHR ''&'') (drop 7 ?raw) \<noteq> []"
    then obtain b where b: "?raw = (lit ''REASON='') @ b" by (auto simp: starts_with_iff)
    then have "?raw = [] @ (lit ''REASON='') @ b \<and> length ([] :: str) < length (c # p)" by simp
    with Cons.prems have "b = [] \<or> hd b = cp CHR ''&''" by blast
    moreover from b have "drop 7 ?raw = b" by simp
    ultimately show False using a by (auto simp: takeWhile_ne_Nil)
  qed
  have ih: "search_reason (p @ (lit ''REASON='') @ reason @ rest) = Some reason"
  proof (rule Cons.IH, intro allI impI)
    fix q t assume "p @ (lit ''REASON='') @ reason @ rest = q @ (lit ''REASON='') @ t \<and> length q < length p"
    then have "?raw = (c # q) @ (lit ''REASON='') @ t \<and> length (c # q) < length (c # p)" by simp
    with Cons.prems show "t = [] \<or> hd t = cp CHR ''&''" by blast
  qed
  have "search_reason (c # (p @ (lit ''REASON='') @ reason @ rest))
      = search_reason (p @ (lit ''REASON='') @ reason @ rest)"
    using not_here by (simp only: append_Cons search_reason.simps if_False)
  with ih show ?case by (simp only: append_Cons)
qed

subsection \<open>The split at the markers\<close>

lemma split_from_not_Nil: "split_from chunk s \<noteq> []"
  by (induction chunk s rule: split_from.induct) auto

lemma join_Cons: "xs \<noteq> [] \<Longrightarrow> join sep (x # xs) = x @ sep @ join sep xs"
  by (cases xs) auto

lemma is_eor_decompose: "is_eor (c # cs) \<Longrightarrow> c # cs = take 5 (c # cs) @ drop 4 cs"
  by (metis append_take_drop_id drop_Suc_Cons eval_nat_numeral(3) numeral_Bit0 numeral_Bit1)

lemma split_from_join:
  "map ascii_lower (join (lit ''<eor>'') (split_from chunk s)) = map ascii_lower (chunk @ s)"
proof (induction chunk s rule: split_from.induct)
  case (1 chunk)
  then show ?case by simp
next
  case (2 chunk c cs)
  let ?m = "lit ''<eor>''"
  show ?case
  proof (cases "is_eor (c # cs)")
    case True
    have s: "split_from chunk (c # cs) = chunk # split_from [] (drop 4 cs)"
      using True by simp
    have m: "map ascii_lower ?m = map ascii_lower (take 5 (c # cs))"
    proof -
      have "map ascii_lower ?m = ?m" by (simp add: ascii_lower_def cp_def)
      with True show ?thesis by (simp only: is_eor_def)
    qed
    have "join ?m (split_from chunk (c # cs)) = chunk @ ?m @ join ?m (split_from [] (drop 4 cs))"
      unfolding s by (rule join_Cons) (rule split_from_not_Nil)
    then have "map ascii_lower (join ?m (split_from chunk (c # cs)))
        = map ascii_lower chunk @ map ascii_lower ?m
          @ map ascii_lower (join ?m (split_from [] (drop 4 cs)))"
      by (simp only: map_append)
    also have "\<dots> = map ascii_lower chunk @ map ascii_lower (take 5 (c # cs))
          @ map ascii_lower (drop 4 cs)"
      using 2(1) [OF True] by (simp only: m append_Nil)
    also have "\<dots> = map ascii_lower (chunk @ take 5 (c # cs) @ drop 4 cs)"
      by (simp only: map_append)
    also have "take 5 (c # cs) @ drop 4 cs = c # cs"
      using is_eor_decompose [OF True] by simp
    finally show ?thesis .
  next
    case False
    with 2(2) show ?thesis by simp
  qed
qed

lemma is_eor_length: "is_eor t \<Longrightarrow> 5 \<le> length t"
proof -
  assume "is_eor t"
  then have "length (map ascii_lower (take 5 t)) = length (lit ''<eor>'')"
    by (simp only: is_eor_def)
  then show ?thesis by simp
qed

lemma is_eor_append: "is_eor t \<Longrightarrow> is_eor (t @ s)"
  by (frule is_eor_length) (simp add: is_eor_def)

lemma not_is_eor_Nil: "\<not> is_eor []"
  by (simp add: is_eor_def)

lemma split_from_no_marker:
  assumes "\<forall>p t. chunk = p @ t \<and> t \<noteq> [] \<longrightarrow> \<not> is_eor (t @ s)"
    and "x \<in> set (split_from chunk s)"
  shows "\<forall>p t. x = p @ t \<longrightarrow> \<not> is_eor t"
  using assms
proof (induction chunk s rule: split_from.induct)
  case (1 chunk)
  show ?case
  proof (intro allI impI)
    fix p t assume e: "x = p @ t"
    from 1(2) have x: "x = chunk" by simp
    show "\<not> is_eor t"
    proof (cases "t = []")
      case True
      then show ?thesis by (simp add: not_is_eor_Nil)
    next
      case False
      with 1(1) e x show ?thesis by auto
    qed
  qed
next
  case (2 chunk c cs)
  show ?case
  proof (cases "is_eor (c # cs)")
    case True
    from 2(4) True have "x = chunk \<or> x \<in> set (split_from [] (drop 4 cs))" by simp
    then show ?thesis
    proof
      assume x: "x = chunk"
      show ?thesis
      proof (intro allI impI)
        fix p t assume e: "x = p @ t"
        show "\<not> is_eor t"
        proof (cases "t = []")
          case True
          then show ?thesis by (simp add: not_is_eor_Nil)
        next
          case False
          with 2(3) e x have "\<not> is_eor (t @ c # cs)" by blast
          then show ?thesis using is_eor_append by blast
        qed
      qed
    next
      assume "x \<in> set (split_from [] (drop 4 cs))"
      with 2(1) [OF True] show ?thesis by simp
    qed
  next
    case False
    have inv: "\<forall>p t. chunk @ [c] = p @ t \<and> t \<noteq> [] \<longrightarrow> \<not> is_eor (t @ cs)"
    proof (intro allI impI)
      fix p t assume a: "chunk @ [c] = p @ t \<and> t \<noteq> []"
      then obtain t' where t: "t = t' @ [c]"
        by (metis append_butlast_last_id last_appendR last_snoc)
      with a have pc: "chunk = p @ t'" by simp
      show "\<not> is_eor (t @ cs)"
      proof (cases "t' = []")
        case True
        with t False show ?thesis by simp
      next
        case False
        with 2(3) pc have "\<not> is_eor (t' @ c # cs)" by blast
        with t show ?thesis by simp
      qed
    qed
    from 2(4) False have "x \<in> set (split_from (chunk @ [c]) cs)" by simp
    from 2(2) [OF False inv this] show ?thesis .
  qed
qed

lemma set_split_from: "x \<in> set (split_from chunk s) \<Longrightarrow> set x \<subseteq> set chunk \<union> set s"
proof (induction chunk s rule: split_from.induct)
  case (1 chunk)
  then show ?case by simp
next
  case (2 chunk c cs)
  show ?case
  proof (cases "is_eor (c # cs)")
    case True
    with 2(3) have "x = chunk \<or> x \<in> set (split_from [] (drop 4 cs))" by simp
    then show ?thesis
    proof
      assume "x = chunk"
      then show ?thesis by auto
    next
      assume "x \<in> set (split_from [] (drop 4 cs))"
      from 2(1) [OF True this] have "set x \<subseteq> set (drop 4 cs)" by simp
      moreover have "set (drop 4 cs) \<subseteq> set cs" by (rule set_drop_subset)
      ultimately show ?thesis by auto
    qed
  next
    case False
    with 2(3) have "x \<in> set (split_from (chunk @ [c]) cs)" by simp
    from 2(2) [OF False this] show ?thesis by auto
  qed
qed

lemma is_eor_has_r: "is_eor t \<Longrightarrow> cp CHR ''r'' \<in> set t \<or> cp CHR ''R'' \<in> set t"
proof -
  assume a: "is_eor t"
  then have "cp CHR ''r'' \<in> set (map ascii_lower (take 5 t))" by (simp add: is_eor_def)
  then obtain d where d: "d \<in> set (take 5 t)" and "ascii_lower d = cp CHR ''r''" by auto
  then have "d = cp CHR ''r'' \<or> d = cp CHR ''R''"
    by (auto simp: ascii_lower_def cp_def split: if_splits)
  moreover from d have "d \<in> set t" by (rule in_set_takeD)
  ultimately show ?thesis by auto
qed

lemma split_from_no_r:
  "cp CHR ''r'' \<notin> set s \<Longrightarrow> cp CHR ''R'' \<notin> set s \<Longrightarrow> split_from chunk s = [chunk @ s]"
proof (induction chunk s rule: split_from.induct)
  case (1 chunk)
  then show ?case by simp
next
  case (2 chunk c cs)
  from 2(3,4) have "\<not> is_eor (c # cs)" using is_eor_has_r by blast
  with 2 show ?case by simp
qed

subsection \<open>The loop over the chunks\<close>

lemma update_not_Nil: "AList.update k v q \<noteq> []"
  by (cases q) auto

lemma int_of_digits_Inr:
  "int_of_digits T len = Inr n \<longleftrightarrow> \<not> too_many_digits T len \<and> n = digits_value T len"
  by (auto simp: int_of_digits_def too_many_digits_def)

lemma int_of_digits_Inl:
  "int_of_digits T len = Inl e \<longleftrightarrow> too_many_digits T len \<and> e = ValueError"
  by (auto simp: int_of_digits_def too_many_digits_def)

lemma build_qso_Inr_Nil: "build_qso T fs q = Inr [] \<longleftrightarrow> fs = [] \<and> q = []"
  by (induction T fs q rule: build_qso.induct) (auto simp: update_not_Nil split: sum.splits)

lemma build_qso_Inl:
  "build_qso T fs q = Inl e \<longleftrightarrow>
     e = ValueError \<and> list_ex (\<lambda>(name, len, val). too_many_digits T len) fs"
proof (induction T fs q rule: build_qso.induct)
  case (1 T qso)
  then show ?case by simp
next
  case (2 T name len val fs qso)
  show ?case
  proof (cases "int_of_digits T len")
    case (Inl e')
    then have "too_many_digits T len" and "e' = ValueError"
      by (simp_all add: int_of_digits_Inl)
    with Inl show ?thesis by auto
  next
    case (Inr n)
    then have "\<not> too_many_digits T len" by (simp add: int_of_digits_Inr)
    with Inr 2 show ?thesis by simp
  qed
qed

lemma build_qso_Inr:
  "(\<exists>q'. build_qso T fs q = Inr q')
     \<longleftrightarrow> \<not> list_ex (\<lambda>(name, len, val). too_many_digits T len) fs"
proof -
  have "(\<exists>q'. build_qso T fs q = Inr q') \<longleftrightarrow> \<not> (\<exists>e. build_qso T fs q = Inl e)"
    by (cases "build_qso T fs q") auto
  then show ?thesis unfolding build_qso_Inl by blast
qed

lemma parse_records_Inr:
  "parse_records T records qsos = Inr out \<Longrightarrow>
     map Inr out =
       map Inr qsos @ map (\<lambda>r. build_qso T (findall_fields T r) [])
         (filter (\<lambda>r. \<not> list_all (isspace T) r \<and> findall_fields T r \<noteq> []) records)"
proof (induction T records qsos rule: parse_records.induct)
  case (1 T qsos)
  then show ?case by auto
next
  case (2 T chunk records qsos)
  show ?case
  proof (cases "strip T chunk = []")
    case True
    with 2 show ?thesis by (simp add: strip_empty_iff)
  next
    case False
    then have nb: "\<not> list_all (isspace T) chunk" by (simp add: strip_empty_iff)
    show ?thesis
    proof (cases "build_qso T (findall_fields T chunk) []")
      case (Inl e)
      with 2(4) False show ?thesis by simp
    next
      case (Inr qso)
      show ?thesis
      proof (cases "qso = []")
        case True
        with Inr have "findall_fields T chunk = []" by (simp add: build_qso_Inr_Nil)
        moreover from 2(4) False Inr True have "parse_records T records qsos = Inr out" by simp
        moreover from True have nn: "\<not> qso \<noteq> []" by simp
        ultimately show ?thesis using 2(3) [OF False Inr nn] by simp
      next
        case ne: False
        with Inr have f: "findall_fields T chunk \<noteq> []" by auto
        from 2(4) False Inr ne have "parse_records T records (qsos @ [qso]) = Inr out" by simp
        from 2(2) [OF False Inr ne this] nb f Inr show ?thesis by simp
      qed
    qed
  qed
qed

lemma parse_records_Inl:
  "parse_records T records qsos = Inl e \<longleftrightarrow> e = ValueError \<and> list_ex (overlong T) records"
proof (induction T records qsos rule: parse_records.induct)
  case (1 T qsos)
  then show ?case by simp
next
  case (2 T chunk records qsos)
  show ?case
  proof (cases "strip T chunk = []")
    case True
    then have "\<not> overlong T chunk" by (simp add: overlong_def strip_empty_iff)
    moreover from True have "parse_records T (chunk # records) qsos
        = parse_records T records qsos" by simp
    ultimately show ?thesis using 2(1) [OF True] by simp
  next
    case False
    then have nb: "\<not> list_all (isspace T) chunk" by (simp add: strip_empty_iff)
    show ?thesis
    proof (cases "build_qso T (findall_fields T chunk) []")
      case (Inl e')
      then have "e' = ValueError" and "overlong T chunk"
        using nb unfolding build_qso_Inl overlong_def by simp_all
      moreover from False Inl have "parse_records T (chunk # records) qsos = Inl e'" by simp
      ultimately show ?thesis by auto
    next
      case (Inr qso)
      then have ok: "\<not> overlong T chunk"
        using build_qso_Inr [of T "findall_fields T chunk" "[]"] by (auto simp: overlong_def)
      show ?thesis
      proof (cases "qso = []")
        case True
        with False Inr have "parse_records T (chunk # records) qsos
            = parse_records T records qsos" by simp
        moreover from True have nn: "\<not> qso \<noteq> []" by simp
        ultimately show ?thesis using ok 2(3) [OF False Inr nn] by simp
      next
        case ne: False
        with False Inr have "parse_records T (chunk # records) qsos
            = parse_records T records (qsos @ [qso])" by simp
        with ok 2(2) [OF False Inr ne] show ?thesis by simp
      qed
    qed
  qed
qed

lemma parse_records_total:
  "(\<exists>out. parse_records T records qsos = Inr out) \<longleftrightarrow> \<not> list_ex (overlong T) records"
proof -
  have "(\<exists>out. parse_records T records qsos = Inr out)
      \<longleftrightarrow> \<not> (\<exists>e. parse_records T records qsos = Inl e)"
    by (cases "parse_records T records qsos") auto
  then show ?thesis unfolding parse_records_Inl by blast
qed

subsection \<open>The scan for fields\<close>

lemma python_tables_ascii:
  assumes "python_tables T" and "c < 128"
  shows "isspace T c = ascii_space c" and "isword T c = ascii_word c"
    and "isdecimal T c = ascii_digit c" and "upper_char T c = [ascii_upper c]"
  using assms by (simp_all add: python_tables_def)

lemma not_word_punct:
  assumes "python_tables T"
  shows "\<not> isword T (cp CHR ''<'')" "\<not> isword T (cp CHR ''>'')" "\<not> isword T (cp CHR '':'')"
    "\<not> isdecimal T (cp CHR ''<'')" "\<not> isdecimal T (cp CHR ''>'')"
    "\<not> isdecimal T (cp CHR '':'')"
  by (simp_all add: python_tables_ascii [OF assms] ascii_word_def ascii_digit_def cp_def)

lemma takeWhile_stop: "\<not> P y \<Longrightarrow> takeWhile P (xs @ y # ys) = takeWhile P xs"
  by (induction xs) auto

lemma dropWhile_stop: "\<not> P y \<Longrightarrow> dropWhile P (xs @ y # ys) = dropWhile P xs @ y # ys"
  by (induction xs) auto

lemma takeWhile_all: "list_all P xs \<Longrightarrow> \<not> P y \<Longrightarrow> takeWhile P (xs @ y # ys) = xs"
  by (induction xs) auto

lemma dropWhile_all: "list_all P xs \<Longrightarrow> \<not> P y \<Longrightarrow> dropWhile P (xs @ y # ys) = y # ys"
  by (induction xs) auto

lemma after_length_tag:
  assumes pt: "python_tables T"
    and ty: "ty = [] \<or> (hd ty = cp CHR '':'' \<and> tl ty \<noteq> [] \<and> list_all (isword T) (tl ty))"
  shows "after_length T (ty @ cp CHR ''>'' # r) = Some r"
proof (cases ty)
  case Nil
  then show ?thesis by (simp add: after_length_def)
next
  case (Cons c t)
  with ty have c: "c = cp CHR '':''" and t: "t \<noteq> []" "list_all (isword T) t" by auto
  note nw = not_word_punct [OF pt]
  have tw: "takeWhile (isword T) (t @ cp CHR ''>'' # r) = t"
    using t(2) by (rule takeWhile_all) (simp add: nw)
  have dw: "dropWhile (isword T) (t @ cp CHR ''>'' # r) = cp CHR ''>'' # r"
    using t(2) by (rule dropWhile_all) (simp add: nw)
  show ?thesis
    unfolding Cons c after_length_def using t(1) by (simp add: tw dw)
qed

lemma match_field_tag:
  assumes pt: "python_tables T" and wf: "well_formed_tag T n l ty"
    and v: "cp CHR ''<'' \<notin> set v" and r: "r = [] \<or> hd r = cp CHR ''<''"
  shows "match_field T (tag n l ty @ v @ r) = Some ((n, l, v), r)"
proof -
  from wf have n: "n \<noteq> []" "list_all (isword T) n" and l: "l \<noteq> []" "list_all (isdecimal T) l"
    and ty: "ty = [] \<or> (hd ty = cp CHR '':'' \<and> tl ty \<noteq> [] \<and> list_all (isword T) (tl ty))"
    by (auto simp: well_formed_tag_def)
  let ?s3 = "v @ r"
  let ?s2 = "l @ ty @ cp CHR ''>'' # ?s3"
  let ?s1 = "n @ cp CHR '':'' # ?s2"
  have e: "tag n l ty @ v @ r = cp CHR ''<'' # ?s1" by (simp add: tag_def)
  note nw = not_word_punct [OF pt]
  have tw1: "takeWhile (isword T) ?s1 = n" using n(2) by (rule takeWhile_all) (simp add: nw)
  have dw1: "dropWhile (isword T) ?s1 = cp CHR '':'' # ?s2"
    using n(2) by (rule dropWhile_all) (simp add: nw)
  have nd: "\<not> (isdecimal T) (hd (ty @ cp CHR ''>'' # ?s3))"
    using ty by (cases ty) (auto simp: nw)
  obtain y ys where yys: "ty @ cp CHR ''>'' # ?s3 = y # ys" by (cases ty) auto
  with nd have ndy: "\<not> (isdecimal T) y" by simp
  have tw2: "takeWhile (isdecimal T) ?s2 = l"
    unfolding yys using l(2) ndy by (rule takeWhile_all)
  have dw2: "dropWhile (isdecimal T) ?s2 = ty @ cp CHR ''>'' # ?s3"
    unfolding yys using l(2) ndy by (rule dropWhile_all)
  have al: "after_length T (ty @ cp CHR ''>'' # ?s3) = Some ?s3" using pt ty by (rule after_length_tag)
  have tw3: "takeWhile (\<lambda>x. x \<noteq> cp CHR ''<'') ?s3 = v"
    using v r by (cases r) (auto simp: takeWhile_append)
  have dw3: "dropWhile (\<lambda>x. x \<noteq> cp CHR ''<'') ?s3 = r"
    using v r by (cases r) (auto simp: dropWhile_append)
  show ?thesis
    unfolding e match_field_def using n(1) l(1)
    by (simp add: tw1 dw1 tw2 dw2 al tw3 dw3)
qed

lemma after_length_Some:
  assumes "after_length T s = Some r"
  shows "\<exists>ty. s = ty @ cp CHR ''>'' # r
           \<and> (ty = [] \<or> (hd ty = cp CHR '':'' \<and> tl ty \<noteq> [] \<and> list_all (isword T) (tl ty)))"
proof (cases s)
  case Nil
  with assms show ?thesis by (simp add: after_length_def)
next
  case (Cons c t)
  show ?thesis
  proof (cases "c = cp CHR ''>''")
    case True
    with assms Cons have "s = [] @ cp CHR ''>'' # r" by (simp add: after_length_def)
    then show ?thesis by blast
  next
    case False
    with assms Cons have c: "c = cp CHR '':''" and tw: "takeWhile (isword T) t \<noteq> []"
      and dw: "dropWhile (isword T) t = cp CHR ''>'' # r"
      by (auto simp: after_length_def split: if_splits list.splits)
    have "t = takeWhile (isword T) t @ dropWhile (isword T) t" by simp
    with dw have "s = (cp CHR '':'' # takeWhile (isword T) t) @ cp CHR ''>'' # r"
      using Cons c by simp
    moreover have "list_all (isword T) (takeWhile (isword T) t)"
      by (auto simp: list_all_iff dest: set_takeWhileD)
    ultimately show ?thesis using tw
      by (intro exI [of _ "cp CHR '':'' # takeWhile (isword T) t"]) simp
  qed
qed

lemma match_field_Some:
  assumes "match_field T s = Some ((n, l, v), r)"
  shows "\<exists>ty. s = tag n l ty @ v @ r \<and> well_formed_tag T n l ty
           \<and> cp CHR ''<'' \<notin> set v \<and> (r = [] \<or> hd r = cp CHR ''<'')"
proof -
  from assms obtain c s1 where s: "s = c # s1"
    by (cases s) (auto simp: match_field_def)
  from assms s have c: "c = cp CHR ''<''" and n: "n = takeWhile (isword T) s1" "n \<noteq> []"
    by (auto simp: match_field_def split: if_splits list.splits option.splits)
  from assms s obtain d s2 where s1: "dropWhile (isword T) s1 = d # s2"
    by (auto simp: match_field_def split: if_splits list.splits)
  from assms s s1 have d: "d = cp CHR '':''" and l: "l = takeWhile (isdecimal T) s2" "l \<noteq> []"
    by (auto simp: match_field_def split: if_splits option.splits)
  from assms s s1 obtain s3 where s3: "after_length T (dropWhile (isdecimal T) s2) = Some s3"
    and v: "v = takeWhile (\<lambda>x. x \<noteq> cp CHR ''<'') s3"
    and r: "r = dropWhile (\<lambda>x. x \<noteq> cp CHR ''<'') s3"
    by (auto simp: match_field_def split: if_splits option.splits)
  from after_length_Some [OF s3] obtain ty where
    ty: "dropWhile (isdecimal T) s2 = ty @ cp CHR ''>'' # s3"
    and wty: "ty = [] \<or> (hd ty = cp CHR '':'' \<and> tl ty \<noteq> [] \<and> list_all (isword T) (tl ty))"
    by blast
  have "s1 = n @ dropWhile (isword T) s1" unfolding n by simp
  moreover have "s2 = l @ dropWhile (isdecimal T) s2" unfolding l by simp
  moreover have "s3 = v @ r" unfolding v r by simp
  ultimately have "s = cp CHR ''<'' # n @ cp CHR '':'' # l @ ty @ cp CHR ''>'' # v @ r"
    using s c s1 d ty by simp
  then have e: "s = tag n l ty @ v @ r" by (simp add: tag_def)
  have "list_all (isword T) n" unfolding n by (auto simp: list_all_iff dest: set_takeWhileD)
  moreover have "list_all (isdecimal T) l" unfolding l by (auto simp: list_all_iff dest: set_takeWhileD)
  ultimately have wf: "well_formed_tag T n l ty"
    using n(2) l(2) wty by (simp add: well_formed_tag_def)
  have nv: "cp CHR ''<'' \<notin> set v" unfolding v by (auto dest: set_takeWhileD)
  have "r = [] \<or> hd r = cp CHR ''<''"
    unfolding r using hd_dropWhile [of "\<lambda>x. x \<noteq> cp CHR ''<''" s3] by auto
  with e wf nv show ?thesis by blast
qed

lemma after_length_stop:
  assumes pt: "python_tables T"
  shows "after_length T (y @ cp CHR ''<'' # s) = map_option (\<lambda>r. r @ cp CHR ''<'' # s) (after_length T y)"
proof (cases y)
  case Nil
  then show ?thesis by (simp add: after_length_def)
next
  case (Cons c r)
  show ?thesis
  proof (cases "dropWhile (isword T) r")
    case Nil
    then show ?thesis
      unfolding Cons after_length_def
      by (simp add: takeWhile_stop dropWhile_stop not_word_punct [OF pt] del: dropWhile_eq_Nil_conv)
  next
    case (Cons d r')
    then show ?thesis
      unfolding \<open>y = c # r\<close> after_length_def
      by (simp add: takeWhile_stop dropWhile_stop not_word_punct [OF pt])
  qed
qed

lemma match_field_stop:
  assumes pt: "python_tables T"
  shows "match_field T ((c # cs) @ cp CHR ''<'' # s)
     = map_option (\<lambda>(g, r). (g, r @ cp CHR ''<'' # s)) (match_field T (c # cs))"
proof (cases "dropWhile (isword T) cs")
  case Nil
  then show ?thesis
    unfolding match_field_def
    by (simp add: takeWhile_stop dropWhile_stop not_word_punct [OF pt] del: dropWhile_eq_Nil_conv)
next
  case (Cons d s2)
  show ?thesis
  proof (cases "after_length T (dropWhile (isdecimal T) s2)")
    case None
    then show ?thesis
      unfolding match_field_def using Cons
      by (simp add: takeWhile_stop dropWhile_stop after_length_stop [OF pt] not_word_punct [OF pt])
  next
    case (Some s3)
    then show ?thesis
      unfolding match_field_def using Cons
      by (simp add: takeWhile_stop dropWhile_stop after_length_stop [OF pt] not_word_punct [OF pt])
  qed
qed

lemma findall_fields_append:
  "python_tables T \<Longrightarrow>
     findall_fields T (pre @ cp CHR ''<'' # s)
       = findall_fields T pre @ findall_fields T (cp CHR ''<'' # s)"
proof (induction T pre rule: findall_fields.induct)
  case (1 T)
  then show ?case by simp
next
  case (2 T c cs)
  note pt = 2(3)
  show ?case
  proof (cases "match_field T (c # cs)")
    case None
    then have "match_field T (c # (cs @ cp CHR ''<'' # s)) = None"
      using match_field_stop [OF pt, of c cs s] by simp
    then have "findall_fields T ((c # cs) @ cp CHR ''<'' # s)
        = findall_fields T (cs @ cp CHR ''<'' # s)"
      by simp
    with 2(1) [OF None pt] None show ?thesis by simp
  next
    case (Some a)
    obtain g r where a: "a = (g, r)" by (cases a)
    with Some have m: "match_field T (c # cs) = Some (g, r)" by simp
    then have "match_field T (c # (cs @ cp CHR ''<'' # s)) = Some (g, r @ cp CHR ''<'' # s)"
      using match_field_stop [OF pt, of c cs s] by simp
    then have "findall_fields T ((c # cs) @ cp CHR ''<'' # s)
        = g # findall_fields T (r @ cp CHR ''<'' # s)"
      by simp
    with 2(2) [OF m refl pt] m show ?thesis by simp
  qed
qed

lemma findall_fields_tag:
  assumes "python_tables T" and "well_formed_tag T n l ty" and "cp CHR ''<'' \<notin> set v"
    and "rest = [] \<or> hd rest = cp CHR ''<''"
  shows "findall_fields T (pre @ tag n l ty @ v @ rest)
           = findall_fields T pre @ (n, l, v) # findall_fields T rest"
proof -
  obtain s where s: "tag n l ty @ v @ rest = cp CHR ''<'' # s" by (simp add: tag_def)
  have "findall_fields T (cp CHR ''<'' # s) = (n, l, v) # findall_fields T rest"
    using match_field_tag [OF assms] unfolding s by simp
  then show ?thesis
    unfolding s by (simp add: findall_fields_append [OF assms(1)])
qed

lemma findall_fields_shape:
  "(n, l, v) \<in> set (findall_fields T c) \<Longrightarrow>
     \<exists>pre ty rest. c = pre @ tag n l ty @ v @ rest \<and> well_formed_tag T n l ty
        \<and> cp CHR ''<'' \<notin> set v \<and> (rest = [] \<or> hd rest = cp CHR ''<'')"
proof (induction T c rule: findall_fields.induct)
  case (1 T)
  then show ?case by simp
next
  case (2 T c cs)
  show ?case
  proof (cases "match_field T (c # cs)")
    case None
    with 2(3) have "(n, l, v) \<in> set (findall_fields T cs)" by simp
    from 2(1) [OF None this] obtain pre ty rest where
      "cs = pre @ tag n l ty @ v @ rest" and w: "well_formed_tag T n l ty"
      "cp CHR ''<'' \<notin> set v" "rest = [] \<or> hd rest = cp CHR ''<''" by blast
    then have "c # cs = (c # pre) @ tag n l ty @ v @ rest" by simp
    with w show ?thesis by blast
  next
    case (Some a)
    obtain n' l' v' r where a: "a = ((n', l', v'), r)" by (cases a) auto
    with Some have m: "match_field T (c # cs) = Some ((n', l', v'), r)" by simp
    from match_field_Some [OF m] obtain ty' where
      e: "c # cs = tag n' l' ty' @ v' @ r" and w': "well_formed_tag T n' l' ty'"
      "cp CHR ''<'' \<notin> set v'" "r = [] \<or> hd r = cp CHR ''<''" by blast
    from 2(3) m have "(n, l, v) = (n', l', v') \<or> (n, l, v) \<in> set (findall_fields T r)" by simp
    then show ?thesis
    proof
      assume "(n, l, v) = (n', l', v')"
      with e have "c # cs = [] @ tag n l ty' @ v @ r" by simp
      with w' \<open>(n, l, v) = (n', l', v')\<close> show ?thesis by blast
    next
      assume "(n, l, v) \<in> set (findall_fields T r)"
      from 2(2) [OF m refl this] obtain pre ty rest where
        "r = pre @ tag n l ty @ v @ rest" and w: "well_formed_tag T n l ty"
        "cp CHR ''<'' \<notin> set v" "rest = [] \<or> hd rest = cp CHR ''<''" by blast
      with e have "c # cs = (tag n' l' ty' @ v' @ pre) @ tag n l ty @ v @ rest" by simp
      with w show ?thesis by blast
    qed
  qed
qed

subsection \<open>The record of a chunk\<close>

lemma find_append:
  "find P (xs @ ys) = (case find P xs of None \<Rightarrow> find P ys | Some a \<Rightarrow> Some a)"
  by (induction xs) auto

lemma find_SomeD: "find P xs = Some a \<Longrightarrow> a \<in> set xs \<and> P a"
  by (induction xs) (auto split: if_splits)

lemma last_field_Some:
  "last_field T k fs = Some (n, l, x) \<Longrightarrow> (n, l, x) \<in> set fs \<and> upper T n = k"
  unfolding last_field_def by (auto dest: find_SomeD)

lemma last_field_Cons:
  "last_field T k ((n, l, x) # fs) =
     (case last_field T k fs of
        None \<Rightarrow> if upper T n = k then Some (n, l, x) else None
      | Some a \<Rightarrow> Some a)"
  by (simp add: last_field_def find_append split: option.splits)

lemma map_of_build_qso:
  "build_qso T fs q = Inr q' \<Longrightarrow>
     map_of q' k =
       (case last_field T k fs of
          Some (n, l, x) \<Rightarrow> Some (strip T (take (digits_value T l) x))
        | None \<Rightarrow> map_of q k)"
proof (induction T fs q rule: build_qso.induct)
  case (1 T qso)
  then show ?case by (simp add: last_field_def)
next
  case (2 T name len val fs qso)
  show ?case
  proof (cases "int_of_digits T len")
    case (Inl e)
    with 2(2) show ?thesis by simp
  next
    case (Inr n)
    then have n: "n = digits_value T len" by (simp add: int_of_digits_Inr)
    from 2(2) Inr have
      "build_qso T fs (AList.update (upper T name) (strip T (take n val)) qso) = Inr q'"
      by simp
    from 2(1) [OF Inr this] show ?thesis
      unfolding last_field_Cons n
      by (cases "last_field T k fs") (auto simp: update_conv')
  qed
qed

lemma distinct_build_qso:
  "build_qso T fs q = Inr q' \<Longrightarrow> distinct (map fst q) \<Longrightarrow> distinct (map fst q')"
proof (induction T fs q rule: build_qso.induct)
  case (1 T qso)
  then show ?case by simp
next
  case (2 T name len val fs qso)
  show ?case
  proof (cases "int_of_digits T len")
    case (Inl e)
    with 2(2) show ?thesis by simp
  next
    case (Inr n)
    from 2(2) Inr have
      "build_qso T fs (AList.update (upper T name) (strip T (take n val)) qso) = Inr q'"
      by simp
    from 2(1) [OF Inr this] 2(3) show ?thesis by (simp add: distinct_update)
  qed
qed

subsection \<open>Upper case and trimming\<close>

lemma upper_append: "upper T (a @ b) = upper T a @ upper T b"
  by (simp add: upper_def)

lemma upper_idem: "python_tables T \<Longrightarrow> upper T (upper T s) = upper T s"
proof (induction s)
  case Nil
  then show ?case by (simp add: upper_def)
next
  case (Cons c s)
  from Cons.prems have "upper T (upper_char T c) = upper_char T c"
    by (simp add: python_tables_def)
  moreover have "upper T (c # s) = upper_char T c @ upper T s" by (simp add: upper_def)
  ultimately show ?case using Cons by (simp add: upper_append)
qed

lemma upper_Nil_iff: "python_tables T \<Longrightarrow> upper T s = [] \<longleftrightarrow> s = []"
  by (cases s) (simp_all add: upper_def python_tables_def)




subsection \<open>Evaluation with the tables of Python\<close>

lemma pt_decimal: "python_tables T \<Longrightarrow> ascii_digit c \<Longrightarrow> decimal T c = c - 48"
  by (simp add: python_tables_def)

lemma pt_int:
  "python_tables T \<Longrightarrow> length ds < 640 \<Longrightarrow> int_of_digits T ds = Inr (digits_value T ds)"
  by (auto simp: python_tables_def int_of_digits_def)

lemma pt_lower:
  "python_tables T \<Longrightarrow> list_all (\<lambda>c. c < 128) s \<Longrightarrow> lower T s = map ascii_lower s"
  by (simp add: python_tables_def)

lemmas pt_eval = python_tables_ascii pt_decimal pt_int pt_lower
  lit_def cp_def match_field_def after_length_def strip_def upper_def digits_value_def
  is_eor_def split_eor_def parse_adif_def adif_payload_def starts_with_def
  ascii_space_def ascii_word_def ascii_digit_def ascii_upper_def ascii_lower_def get_def

lemma python_sample_tables: "python_tables sample_tables"
proof -
  have u: "upper sample_tables (upper_char sample_tables c) = upper_char sample_tables c" for c
    by (auto simp: sample_tables_def upper_def ascii_upper_def)
  have l: "lower sample_tables s = map ascii_lower s" if "list_all (\<lambda>c. c < 128) s" for s
    using that by (induction s) (simp_all add: sample_tables_def)
  have a: "isspace sample_tables c = ascii_space c \<and> isword sample_tables c = ascii_word c
      \<and> isdecimal sample_tables c = ascii_digit c
      \<and> upper_char sample_tables c = [ascii_upper c]" if "c < 128" for c
    using that by (simp add: sample_tables_def)
  have d: "decimal sample_tables c = c - 48" if "ascii_digit c" for c
    using that by (simp add: sample_tables_def ascii_digit_def)
  have n: "upper_char sample_tables c \<noteq> []" for c
    by (simp add: sample_tables_def)
  have m: "max_str_digits sample_tables = 0 \<or> 640 \<le> max_str_digits sample_tables"
    by (simp add: sample_tables_def)
  from u l a d n m show ?thesis unfolding python_tables_def by blast
qed

subsection \<open>The loops of the statistics and of the export\<close>

lemma csv_loop_acc:
  "csv_loop T qsos lines =
     lines @ map (csv_row T) (filter (\<lambda>q. upper T (get q (lit ''CALL'') []) \<noteq> []) qsos)"
  by (induction T qsos lines rule: csv_loop.induct) auto

lemma join_newline: "xs \<noteq> [] \<Longrightarrow> join sep xs @ sep = concat (map (\<lambda>l. l @ sep) xs)"
  by (induction sep xs rule: join.induct) auto

lemma stats_loop_sets:
  "stats_loop T qsos (cs, bs, ms) =
     (cs \<union> (country_of ` set qsos - {[]}),
      bs \<union> (\<lambda>q. lower T (get q (lit ''BAND'') [])) ` {q \<in> set qsos. get q (lit ''BAND'') [] \<noteq> []},
      ms \<union> (\<lambda>q. upper T (get q (lit ''MODE'') [])) ` {q \<in> set qsos. get q (lit ''MODE'') [] \<noteq> []})"
proof (induction qsos arbitrary: cs bs ms)
  case Nil
  then show ?case by simp
next
  case (Cons q qsos)
  let ?B = "lit ''BAND''" and ?M = "lit ''MODE''"
  have c: "(if country_of q \<noteq> [] then insert (country_of q) cs else cs)
        \<union> (country_of ` set qsos - {[]}) = cs \<union> (country_of ` set (q # qsos) - {[]})"
    by auto
  have b: "(if get q ?B [] \<noteq> [] then insert (lower T (get q ?B [])) bs else bs)
        \<union> (\<lambda>q. lower T (get q ?B [])) ` {q \<in> set qsos. get q ?B [] \<noteq> []}
      = bs \<union> (\<lambda>q. lower T (get q ?B [])) ` {x \<in> set (q # qsos). get x ?B [] \<noteq> []}"
    by auto
  have m: "(if get q ?M [] \<noteq> [] then insert (upper T (get q ?M [])) ms else ms)
        \<union> (\<lambda>q. upper T (get q ?M [])) ` {q \<in> set qsos. get q ?M [] \<noteq> []}
      = ms \<union> (\<lambda>q. upper T (get q ?M [])) ` {x \<in> set (q # qsos). get x ?M [] \<noteq> []}"
    by auto
  show ?case
    unfolding stats_loop.simps Cons.IH by (simp only: c b m)
qed

section \<open>The claims\<close>



lemma earlier_occurrence:
  assumes "pre @ m @ x = p @ m @ t" and "length p < length pre"
  shows "pre @ m = p @ m @ take (length pre - length p) t
         \<and> take (length pre - length p) t \<noteq> []
         \<and> hd (take (length pre - length p) t) = hd t"
proof -
  let ?n = "length pre - length p"
  from assms(1) have "take (length pre + length m) (pre @ m @ x)
      = take (length pre + length m) (p @ m @ t)" by simp
  moreover have "take (length pre + length m) (pre @ m @ x) = pre @ m" by simp
  moreover have "take (length pre + length m) (p @ m @ t) = p @ m @ take ?n t"
    using assms(2) by simp
  ultimately have e: "pre @ m = p @ m @ take ?n t" by simp
  then have "length (pre @ m) = length (p @ m @ take ?n t)" by simp
  with assms(2) have "take ?n t \<noteq> []" by auto
  then have "t \<noteq> []" by auto
  with assms(2) have "hd (take ?n t) = hd t" by (cases t) (auto simp: take_Cons')
  with e \<open>take ?n t \<noteq> []\<close> show ?thesis by blast
qed

lemma no_earlier_reason:
  assumes "search_reason (pre @ (lit ''REASON='')) = None"
  shows "\<forall>p t. pre @ (lit ''REASON='') @ reason @ rest = p @ (lit ''REASON='') @ t \<and> length p < length pre
           \<longrightarrow> t = [] \<or> hd t = cp CHR ''&''"
proof (intro allI impI)
  fix p t
  assume a: "pre @ (lit ''REASON='') @ reason @ rest = p @ (lit ''REASON='') @ t \<and> length p < length pre"
  let ?t' = "take (length pre - length p) t"
  from a have "pre @ (lit ''REASON='') @ (reason @ rest) = p @ (lit ''REASON='') @ t"
    and "length p < length pre" by simp_all
  from earlier_occurrence [OF this]
  have e: "pre @ (lit ''REASON='') = p @ (lit ''REASON='') @ ?t'" and ne: "?t' \<noteq> []"
    and h: "hd ?t' = hd t" by blast+
  from assms e have "?t' = [] \<or> hd ?t' = cp CHR ''&''"
    unfolding search_reason_None_iff by blast
  with ne h show "t = [] \<or> hd t = cp CHR ''&''" by simp
qed

text \<open>
  C2, as the code has it. When the input contains \<^verbatim>\<open>RESULT=FAIL\<close>, parsing fails whatever
  the decoder is. The reason is, verbatim, the longest run of characters other than
  \<^verbatim>\<open>&\<close> after the leftmost \<^verbatim>\<open>REASON=\<close> that such a character follows:
  \<^verbatim>\<open>RESULT=FAIL&REASON=Invalid+Key\<close> gives \<^verbatim>\<open>Invalid+Key\<close>. When no \<^verbatim>\<open>REASON=\<close> is followed by
  a character other than \<^verbatim>\<open>&\<close>, the reason is the word \<^verbatim>\<open>desconocido\<close>.
\<close>

theorem failure_reason:
  assumes "raw = a @ (lit ''RESULT=FAIL'') @ b"
  shows "(\<forall>pre reason rest.
            raw = pre @ (lit ''REASON='') @ reason @ rest \<and> reason \<noteq> [] \<and> cp CHR ''&'' \<notin> set reason
            \<and> (rest = [] \<or> hd rest = cp CHR ''&'')
            \<and> (\<forall>p t. raw = p @ (lit ''REASON='') @ t \<and> length p < length pre
                   \<longrightarrow> t = [] \<or> hd t = cp CHR ''&'')
            \<longrightarrow> parse_adif T unquote raw = Inl (ProtocolError reason))
       \<and> ((\<forall>p t. raw = p @ (lit ''REASON='') @ t \<longrightarrow> t = [] \<or> hd t = cp CHR ''&'')
            \<longrightarrow> parse_adif T unquote raw = Inl (ProtocolError (lit ''desconocido'')))
       \<and> (\<exists>msg. parse_adif T unquote raw = Inl (ProtocolError msg))
       \<and> parse_adif T unquote (lit ''RESULT=FAIL&REASON=Invalid+Key'') = Inl (ProtocolError (lit ''Invalid+Key''))"
proof (intro conjI allI impI)
  from assms have c: "contains (lit ''RESULT=FAIL'') raw" unfolding contains_iff by blast
  then have p: "parse_adif T unquote raw
      = Inl (ProtocolError (case search_reason raw of Some msg \<Rightarrow> msg | None \<Rightarrow> (lit ''desconocido'')))"
    by (simp add: parse_adif_def)
  then show "\<exists>msg. parse_adif T unquote raw = Inl (ProtocolError msg)" by blast
  {
    assume "\<forall>p t. raw = p @ (lit ''REASON='') @ t \<longrightarrow> t = [] \<or> hd t = cp CHR ''&''"
    then have "search_reason raw = None" unfolding search_reason_None_iff .
    with p show "parse_adif T unquote raw = Inl (ProtocolError (lit ''desconocido''))" by simp
  }
  {
    fix pre reason rest
    assume h: "raw = pre @ (lit ''REASON='') @ reason @ rest \<and> reason \<noteq> [] \<and> cp CHR ''&'' \<notin> set reason
            \<and> (rest = [] \<or> hd rest = cp CHR ''&'')
            \<and> (\<forall>p t. raw = p @ (lit ''REASON='') @ t \<and> length p < length pre
                   \<longrightarrow> t = [] \<or> hd t = cp CHR ''&'')"
    then have "search_reason (pre @ (lit ''REASON='') @ reason @ rest) = Some reason"
      by (intro search_reason_first) auto
    with h p show "parse_adif T unquote raw = Inl (ProtocolError reason)" by simp
  }
  have "contains (lit ''RESULT=FAIL'') (lit ''RESULT=FAIL&REASON=Invalid+Key'')" by code_simp
  moreover have "search_reason (lit ''RESULT=FAIL&REASON=Invalid+Key'') = Some (lit ''Invalid+Key'')"
    by code_simp
  ultimately show "parse_adif T unquote (lit ''RESULT=FAIL&REASON=Invalid+Key'')
      = Inl (ProtocolError (lit ''Invalid+Key''))"
    by (simp only: parse_adif_def if_True option.case)
qed

theorem failure_reason_witness:
  "parse_adif sample_tables id ((lit ''RESULT=FAIL&'') @ (lit ''REASON='') @ (lit ''Invalid+Key'') @ [])
     = Inl (ProtocolError (lit ''Invalid+Key''))
   \<and> parse_adif sample_tables id (lit ''RESULT=FAIL&REASON=&X=1'') = Inl (ProtocolError (lit ''desconocido''))"
proof -
  have 1: "parse_adif sample_tables id ((lit ''RESULT=FAIL&'') @ (lit ''REASON='') @ (lit ''Invalid+Key'') @ [])
     = Inl (ProtocolError (lit ''Invalid+Key''))"
  proof -
    have r: "(lit ''RESULT=FAIL&'') @ (lit ''REASON='') @ (lit ''Invalid+Key'') @ []
        = [] @ (lit ''RESULT=FAIL'') @ (lit ''&REASON=Invalid+Key'')" by simp
    have s: "search_reason ((lit ''RESULT=FAIL&'') @ (lit ''REASON='')) = None" by code_simp
    note t = failure_reason [OF r, of sample_tables id, THEN conjunct1, rule_format,
        of "(lit ''RESULT=FAIL&'')" "(lit ''Invalid+Key'')" "[]"]
    show ?thesis
      by (rule t, intro conjI refl no_earlier_reason [OF s]) simp_all
  qed
  have 2: "parse_adif sample_tables id (lit ''RESULT=FAIL&REASON=&X=1'') = Inl (ProtocolError (lit ''desconocido''))"
  proof -
    have r: "(lit ''RESULT=FAIL&REASON=&X=1'') = [] @ (lit ''RESULT=FAIL'') @ (lit ''&REASON=&X=1'')" by simp
    have s: "search_reason (lit ''RESULT=FAIL&REASON=&X=1'') = None" by code_simp
    note t = failure_reason [OF r, of sample_tables id, THEN conjunct2, THEN conjunct1, rule_format]
    show ?thesis
      by (rule t) (use s in \<open>simp only: search_reason_None_iff\<close>)
  qed
  from 1 2 show ?thesis by blast
qed

theorem failure_reason_default_counterexample:
  "parse_adif sample_tables id (lit ''RESULT=FAIL'') = Inl (ProtocolError (lit ''desconocido''))
   \<and> parse_adif sample_tables id (lit ''RESULT=FAIL'') \<noteq> Inl (ProtocolError (lit ''unknown''))"
proof -
  have "contains (lit ''RESULT=FAIL'') (lit ''RESULT=FAIL'')" by code_simp
  moreover have "search_reason (lit ''RESULT=FAIL'') = None" by code_simp
  ultimately have "parse_adif sample_tables id (lit ''RESULT=FAIL'') = Inl (ProtocolError (lit ''desconocido''))"
    by (simp only: parse_adif_def if_True option.case)
  then show ?thesis by simp
qed

lemma parse_adif_Inr:
  "parse_adif T unquote raw = Inr qsos \<Longrightarrow>
     parse_records T (split_eor (adif_payload unquote raw)) [] = Inr qsos"
  by (auto simp: parse_adif_def split: if_splits)

lemma parse_adif_plain:
  "\<not> contains (lit ''RESULT=FAIL'') raw \<Longrightarrow>
     parse_adif T unquote raw = parse_records T (split_eor (adif_payload unquote raw)) []"
  by (simp add: parse_adif_def)

lemma split_eor_blank:
  assumes "list_all (isspace T) s" and "x \<in> set (split_eor s)"
  shows "list_all (isspace T) x"
proof -
  from assms(2) have "set x \<subseteq> set s"
    using set_split_from [of x "[]" s] by (simp add: split_eor_def)
  with assms(1) show ?thesis by (auto simp: list_all_iff)
qed

text \<open>
  C3. The payload is split at the markers \<^verbatim>\<open><eor>\<close>, letters in either case: the chunks,
  joined again by the marker, are the payload up to the case of letters, and no chunk
  contains a marker. The records are those of the chunks that are not made of whitespace
  only and in which a field was found, in the order of the chunks; no record is empty;
  a payload that is empty or made of whitespace only gives no record.
\<close>

theorem parse_adif_records:
  assumes "parse_adif T unquote raw = Inr qsos"
  shows "map ascii_lower (join (lit ''<eor>'') (split_eor (adif_payload unquote raw)))
           = map ascii_lower (adif_payload unquote raw)
       \<and> (\<forall>chunk \<in> set (split_eor (adif_payload unquote raw)).
             \<forall>p t. chunk = p @ t \<longrightarrow> \<not> is_eor t)
       \<and> map Inr qsos
           = map (\<lambda>chunk. build_qso T (findall_fields T chunk) [])
               (filter (\<lambda>chunk. \<not> list_all (isspace T) chunk \<and> findall_fields T chunk \<noteq> [])
                  (split_eor (adif_payload unquote raw)))
       \<and> [] \<notin> set qsos
       \<and> (list_all (isspace T) (adif_payload unquote raw) \<longrightarrow> qsos = [])"
proof (intro conjI)
  let ?p = "adif_payload unquote raw"
  let ?keep = "\<lambda>chunk. \<not> list_all (isspace T) chunk \<and> findall_fields T chunk \<noteq> []"
  show "map ascii_lower (join (lit ''<eor>'') (split_eor ?p)) = map ascii_lower ?p"
    using split_from_join [of "[]" ?p] by (simp add: split_eor_def)
  show "\<forall>chunk \<in> set (split_eor ?p). \<forall>p t. chunk = p @ t \<longrightarrow> \<not> is_eor t"
    using split_from_no_marker [of "[]" ?p] by (simp add: split_eor_def)
  show q: "map Inr qsos = map (\<lambda>chunk. build_qso T (findall_fields T chunk) [])
                  (filter ?keep (split_eor ?p))"
    using parse_records_Inr [OF parse_adif_Inr [OF assms]] by simp
  show "[] \<notin> set qsos"
  proof
    assume "[] \<in> set qsos"
    then have "Inr [] \<in> set (map Inr qsos :: (error + qso) list)" by (simp add: image_iff)
    then have "Inr [] \<in> set (map (\<lambda>chunk. build_qso T (findall_fields T chunk) [])
                  (filter ?keep (split_eor ?p)))" by (simp only: q)
    then obtain chunk where "build_qso T (findall_fields T chunk) [] = Inr []"
      and "findall_fields T chunk \<noteq> []" by auto
    then show False by (simp add: build_qso_Inr_Nil)
  qed
  show "list_all (isspace T) ?p \<longrightarrow> qsos = []"
  proof
    assume b: "list_all (isspace T) ?p"
    have "filter ?keep (split_eor ?p) = []"
      unfolding filter_empty_conv using split_eor_blank [OF b] by blast
    with q show "qsos = []" by simp
  qed
qed

theorem parse_adif_records_witness:
  "parse_adif sample_tables id (lit ''<a:1>x<EOR> '' @ [0xA0] @ lit ''<eor><b>y<eOr><c:2>zz'')
     = Inr [[(lit ''A'', lit ''x'')], [(lit ''C'', lit ''zz'')]]
   \<and> split_eor (adif_payload id (lit ''<a:1>x<EOR> '' @ [0xA0] @ lit ''<eor><b>y<eOr><c:2>zz''))
       = [lit ''<a:1>x'', lit '' '' @ [0xA0], lit ''<b>y'', lit ''<c:2>zz'']
   \<and> [] \<notin> set [[(lit ''A'', lit ''x'')], [(lit ''C'', lit ''zz'')]]
   \<and> parse_adif sample_tables id (lit '' '' @ [0xA0]) = Inr []"
proof -
  let ?raw = "lit ''<a:1>x<EOR> '' @ [0xA0] @ lit ''<eor><b>y<eOr><c:2>zz''"
  have 1: "parse_adif sample_tables id ?raw
      = Inr [[(lit ''A'', lit ''x'')], [(lit ''C'', lit ''zz'')]]" by code_simp
  have 2: "split_eor (adif_payload id ?raw)
       = [lit ''<a:1>x'', lit '' '' @ [0xA0], lit ''<b>y'', lit ''<c:2>zz'']" by code_simp
  have 3: "parse_adif sample_tables id (lit '' '' @ [0xA0])
      = Inr (projr (parse_adif sample_tables id (lit '' '' @ [0xA0])))"
    by code_simp
  have 4: "list_all (isspace sample_tables) (adif_payload id (lit '' '' @ [0xA0]))" by code_simp
  from parse_adif_records [OF 1]
  have 5: "[] \<notin> set [[(lit ''A'', lit ''x'')], [(lit ''C'', lit ''zz'')]]"
    by (elim conjE)
  from parse_adif_records [OF 3] 4
  have "projr (parse_adif sample_tables id (lit '' '' @ [0xA0])) = []" by (elim conjE impE)
  with 3 have 6: "parse_adif sample_tables id (lit '' '' @ [0xA0]) = Inr []" by simp
  show ?thesis by (intro conjI) (rule 1 2 5 6)+
qed

lemma compute_stats_sets:
  "compute_stats T qsos =
     \<lparr>total_qsos = length qsos,
      countries = card (country_of ` set qsos - {[]}),
      bands = card ((\<lambda>q. lower T (get q (lit ''BAND'') []))
                ` {q \<in> set qsos. get q (lit ''BAND'') [] \<noteq> []}),
      modes = card ((\<lambda>q. upper T (get q (lit ''MODE'') []))
                ` {q \<in> set qsos. get q (lit ''MODE'') [] \<noteq> []}),
      country_list = sorted_list_of_set (country_of ` set qsos - {[]}),
      band_list = sorted_list_of_set
        ((\<lambda>q. lower T (get q (lit ''BAND'') [])) ` {q \<in> set qsos. get q (lit ''BAND'') [] \<noteq> []}),
      mode_list = sorted_list_of_set
        ((\<lambda>q. upper T (get q (lit ''MODE'') [])) ` {q \<in> set qsos. get q (lit ''MODE'') [] \<noteq> []})\<rparr>"
  by (simp add: compute_stats_def stats_loop_sets)

lemma strict_sorted_unique:
  fixes xs ys :: "str list"
  assumes "set xs = set ys" and "sorted_wrt (<) xs" and "sorted_wrt (<) ys"
  shows "xs = ys"
  using assms by (simp add: strict_sorted_equal)

text \<open>
  C4. The country of a record is its field \<^verbatim>\<open>COUNTRY\<close>, or its field \<^verbatim>\<open>DXCC\<close> when
  \<^verbatim>\<open>COUNTRY\<close> is empty or absent. The countries are the non-empty country values as they
  are, the bands the non-empty \<^verbatim>\<open>BAND\<close> values in lower case, the modes the non-empty
  \<^verbatim>\<open>MODE\<close> values in upper case. Each count is the cardinality of its set, each list is
  strictly ascending in the lexicographic order and has the set as its elements. The
  countries \<^verbatim>\<open>brazil\<close> and \<^verbatim>\<open>Brazil\<close> are two countries. Two records with the bands \<^verbatim>\<open>40M\<close>
  and \<^verbatim>\<open>40m\<close> give the band count 1 and the band list \<^verbatim>\<open>["40m"]\<close>; the modes \<^verbatim>\<open>ssb\<close>,
  \<^verbatim>\<open>SSB\<close> and \<^verbatim>\<open>cw\<close> give the mode count 2 and the mode list \<^verbatim>\<open>["CW", "SSB"]\<close>.
\<close>

theorem compute_stats_dimensions:
  fixes T :: tables and qsos :: "qso list"
  defines "st \<equiv> compute_stats T qsos"
  defines "cs \<equiv> country_of ` set qsos - {[]}"
  defines "bs \<equiv> (\<lambda>q. lower T (get q (lit ''BAND'') []))
                   ` {q \<in> set qsos. get q (lit ''BAND'') [] \<noteq> []}"
  defines "ms \<equiv> (\<lambda>q. upper T (get q (lit ''MODE'') []))
                   ` {q \<in> set qsos. get q (lit ''MODE'') [] \<noteq> []}"
  shows "country_of q =
           (case map_of q (lit ''COUNTRY'') of
              Some c \<Rightarrow> if c \<noteq> [] then c
                        else (case map_of q (lit ''DXCC'') of Some d \<Rightarrow> d | None \<Rightarrow> [])
            | None \<Rightarrow> (case map_of q (lit ''DXCC'') of Some d \<Rightarrow> d | None \<Rightarrow> []))
       \<and> countries st = card cs \<and> set (country_list st) = cs \<and> sorted_wrt (<) (country_list st)
       \<and> bands st = card bs \<and> set (band_list st) = bs \<and> sorted_wrt (<) (band_list st)
       \<and> modes st = card ms \<and> set (mode_list st) = ms \<and> sorted_wrt (<) (mode_list st)
       \<and> country_list (compute_stats T
            [[(lit ''COUNTRY'', lit ''brazil'')],
             [(lit ''COUNTRY'', []), (lit ''DXCC'', lit ''291'')],
             [(lit ''DXCC'', lit ''100''), (lit ''COUNTRY'', lit ''Brazil'')]])
           = [lit ''291'', lit ''Brazil'', lit ''brazil'']
       \<and> (python_tables T \<longrightarrow>
             bands (compute_stats T [[(lit ''BAND'', lit ''40M'')], [(lit ''BAND'', lit ''40m'')]]) = 1
           \<and> band_list (compute_stats T [[(lit ''BAND'', lit ''40M'')], [(lit ''BAND'', lit ''40m'')]])
               = [lit ''40m'']
           \<and> modes (compute_stats T
                [[(lit ''MODE'', lit ''ssb'')], [(lit ''MODE'', lit ''SSB'')],
                 [(lit ''MODE'', lit ''cw'')], [(lit ''MODE'', [])]]) = 2
           \<and> mode_list (compute_stats T
                [[(lit ''MODE'', lit ''ssb'')], [(lit ''MODE'', lit ''SSB'')],
                 [(lit ''MODE'', lit ''cw'')], [(lit ''MODE'', [])]])
               = [lit ''CW'', lit ''SSB''])"
proof -
  have 1: "country_of q =
           (case map_of q (lit ''COUNTRY'') of
              Some c \<Rightarrow> if c \<noteq> [] then c
                        else (case map_of q (lit ''DXCC'') of Some d \<Rightarrow> d | None \<Rightarrow> [])
            | None \<Rightarrow> (case map_of q (lit ''DXCC'') of Some d \<Rightarrow> d | None \<Rightarrow> []))"
    by (simp add: country_of_def get_def split: option.splits)
  have c: "countries st = card cs \<and> set (country_list st) = cs \<and> sorted_wrt (<) (country_list st)"
    unfolding st_def cs_def compute_stats_sets
    by (simp add: sorted_list_of_set.strict_sorted_key_list_of_set)
  have b: "bands st = card bs \<and> set (band_list st) = bs \<and> sorted_wrt (<) (band_list st)"
    unfolding st_def bs_def compute_stats_sets
    by (simp add: sorted_list_of_set.strict_sorted_key_list_of_set)
  have m: "modes st = card ms \<and> set (mode_list st) = ms \<and> sorted_wrt (<) (mode_list st)"
    unfolding st_def ms_def compute_stats_sets
    by (simp add: sorted_list_of_set.strict_sorted_key_list_of_set)
  have e0: "country_list (compute_stats T
            [[(lit ''COUNTRY'', lit ''brazil'')],
             [(lit ''COUNTRY'', []), (lit ''DXCC'', lit ''291'')],
             [(lit ''DXCC'', lit ''100''), (lit ''COUNTRY'', lit ''Brazil'')]])
           = [lit ''291'', lit ''Brazil'', lit ''brazil'']"
    by (simp add: compute_stats_def country_of_def get_def cp_def)
  have e: "bands (compute_stats T [[(lit ''BAND'', lit ''40M'')], [(lit ''BAND'', lit ''40m'')]]) = 1
           \<and> band_list (compute_stats T [[(lit ''BAND'', lit ''40M'')], [(lit ''BAND'', lit ''40m'')]])
               = [lit ''40m'']
           \<and> modes (compute_stats T
                [[(lit ''MODE'', lit ''ssb'')], [(lit ''MODE'', lit ''SSB'')],
                 [(lit ''MODE'', lit ''cw'')], [(lit ''MODE'', [])]]) = 2
           \<and> mode_list (compute_stats T
                [[(lit ''MODE'', lit ''ssb'')], [(lit ''MODE'', lit ''SSB'')],
                 [(lit ''MODE'', lit ''cw'')], [(lit ''MODE'', [])]])
               = [lit ''CW'', lit ''SSB'']" if pt: "python_tables T"
    using pt by (simp add: compute_stats_def pt_eval)
  from 1 c b m e0 e show ?thesis by blast
qed

theorem compute_stats_dimensions_witness:
  "python_tables sample_tables
   \<and> country_of [(lit ''COUNTRY'', []), (lit ''DXCC'', lit ''291'')] = lit ''291''
   \<and> bands (compute_stats sample_tables
        [[(lit ''BAND'', [0xC9]), (lit ''MODE'', lit ''stra'' @ [0xDF] @ lit ''e'')],
         [(lit ''BAND'', [0xE9]), (lit ''MODE'', lit ''STRASSE'')]]) = 1
   \<and> band_list (compute_stats sample_tables
        [[(lit ''BAND'', [0xC9]), (lit ''MODE'', lit ''stra'' @ [0xDF] @ lit ''e'')],
         [(lit ''BAND'', [0xE9]), (lit ''MODE'', lit ''STRASSE'')]]) = [[0xE9]]
   \<and> modes (compute_stats sample_tables
        [[(lit ''BAND'', [0xC9]), (lit ''MODE'', lit ''stra'' @ [0xDF] @ lit ''e'')],
         [(lit ''BAND'', [0xE9]), (lit ''MODE'', lit ''STRASSE'')]]) = 1
   \<and> mode_list (compute_stats sample_tables
        [[(lit ''BAND'', [0xC9]), (lit ''MODE'', lit ''stra'' @ [0xDF] @ lit ''e'')],
         [(lit ''BAND'', [0xE9]), (lit ''MODE'', lit ''STRASSE'')]]) = [lit ''STRASSE'']
   \<and> mode_list (compute_stats sample_tables
        [[(lit ''MODE'', lit ''ssb'')], [(lit ''MODE'', lit ''SSB'')],
         [(lit ''MODE'', lit ''cw'')], [(lit ''MODE'', [])]]) = [lit ''CW'', lit ''SSB'']"
proof -
  let ?T = "sample_tables"
  let ?ex = "[[(lit ''BAND'', [0xC9]), (lit ''MODE'', lit ''stra'' @ [0xDF] @ lit ''e'')],
         [(lit ''BAND'', [0xE9 :: nat]), (lit ''MODE'', lit ''STRASSE'')]]"
  let ?st = "compute_stats ?T ?ex"
  note t = compute_stats_dimensions
    [where T = ?T and qsos = ?ex and q = "[(lit ''COUNTRY'', []), (lit ''DXCC'', lit ''291'')]"]
  have 1: "country_of [(lit ''COUNTRY'', []), (lit ''DXCC'', lit ''291'')] = lit ''291''"
    using t [THEN conjunct1] by (simp add: cp_def)
  have "map (\<lambda>q. lower ?T (get q (lit ''BAND'') []))
          (filter (\<lambda>q. get q (lit ''BAND'') [] \<noteq> []) ?ex) = [[0xE9], [0xE9]]" by code_simp
  then have "set (map (\<lambda>q. lower ?T (get q (lit ''BAND'') []))
          (filter (\<lambda>q. get q (lit ''BAND'') [] \<noteq> []) ?ex)) = {[0xE9]}" by simp
  then have b: "(\<lambda>q. lower ?T (get q (lit ''BAND'') []))
          ` {q \<in> set ?ex. get q (lit ''BAND'') [] \<noteq> []} = {[0xE9]}"
    by (simp only: set_map set_filter)
  have "map (\<lambda>q. upper ?T (get q (lit ''MODE'') []))
          (filter (\<lambda>q. get q (lit ''MODE'') [] \<noteq> []) ?ex)
      = [lit ''STRASSE'', lit ''STRASSE'']" by code_simp
  then have "set (map (\<lambda>q. upper ?T (get q (lit ''MODE'') []))
          (filter (\<lambda>q. get q (lit ''MODE'') [] \<noteq> []) ?ex)) = {lit ''STRASSE''}" by simp
  then have m: "(\<lambda>q. upper ?T (get q (lit ''MODE'') []))
          ` {q \<in> set ?ex. get q (lit ''MODE'') [] \<noteq> []} = {lit ''STRASSE''}"
    by (simp only: set_map set_filter)
  note tb = t [THEN conjunct2, THEN conjunct2, THEN conjunct2, THEN conjunct2, THEN conjunct1]
    and sb = t [THEN conjunct2, THEN conjunct2, THEN conjunct2, THEN conjunct2, THEN conjunct2, THEN conjunct1]
    and ob = t [THEN conjunct2, THEN conjunct2, THEN conjunct2, THEN conjunct2, THEN conjunct2, THEN conjunct2, THEN conjunct1]
    and tm = t [THEN conjunct2, THEN conjunct2, THEN conjunct2, THEN conjunct2, THEN conjunct2, THEN conjunct2, THEN conjunct2, THEN conjunct1]
    and sm = t [THEN conjunct2, THEN conjunct2, THEN conjunct2, THEN conjunct2, THEN conjunct2, THEN conjunct2, THEN conjunct2, THEN conjunct2, THEN conjunct1]
    and om = t [THEN conjunct2, THEN conjunct2, THEN conjunct2, THEN conjunct2, THEN conjunct2, THEN conjunct2, THEN conjunct2, THEN conjunct2, THEN conjunct2, THEN conjunct1]
    and ex = t [THEN conjunct2, THEN conjunct2, THEN conjunct2, THEN conjunct2, THEN conjunct2, THEN conjunct2, THEN conjunct2, THEN conjunct2, THEN conjunct2, THEN conjunct2, THEN conjunct2]
  have 2: "bands ?st = 1" using tb unfolding b by simp
  have "set (band_list ?st) = set [[0xE9]]" unfolding sb b by simp
  then have 3: "band_list ?st = [[0xE9]]"
    using ob by (rule strict_sorted_unique) simp
  have 4: "modes ?st = 1" using tm unfolding m by simp
  have "set (mode_list ?st) = set [lit ''STRASSE'']" unfolding sm m by simp
  then have 5: "mode_list ?st = [lit ''STRASSE'']"
    using om by (rule strict_sorted_unique) simp
  have 6: "mode_list (compute_stats sample_tables
        [[(lit ''MODE'', lit ''ssb'')], [(lit ''MODE'', lit ''SSB'')],
         [(lit ''MODE'', lit ''cw'')], [(lit ''MODE'', [])]]) = [lit ''CW'', lit ''SSB'']"
    using ex [rule_format, OF python_sample_tables] by (elim conjE)
  show ?thesis by (intro conjI) (rule python_sample_tables 1 2 3 4 5 6)+
qed

lemma csv_lines_eq:
  "csv_lines T qsos = lit ''indicativo,fecha,banda,modo''
     # map (csv_row T) (filter (\<lambda>q. upper T (get q (lit ''CALL'') []) \<noteq> []) qsos)"
  by (simp add: csv_lines_def csv_loop_acc)

text \<open>
  C5. The total of the statistics is the length of the whole sequence. The lines of the
  export are the header and then one row for each record whose \<^verbatim>\<open>CALL\<close>, in upper case,
  is not empty, and for no other record; the upper case of a text is empty only when the
  text is. Three records of which one has no \<^verbatim>\<open>CALL\<close> give the header and two rows, and
  the total 3.
\<close>

theorem export_eligibility:
  "total_qsos (compute_stats T qsos) = length qsos
   \<and> hd (csv_lines T qsos) = lit ''indicativo,fecha,banda,modo''
   \<and> tl (csv_lines T qsos)
       = map (csv_row T) (filter (\<lambda>q. upper T (get q (lit ''CALL'') []) \<noteq> []) qsos)
   \<and> length (csv_lines T qsos)
       = 1 + length (filter (\<lambda>q. upper T (get q (lit ''CALL'') []) \<noteq> []) qsos)
   \<and> total_qsos (compute_stats T
        [[(lit ''CALL'', lit ''W1ABC'')], [(lit ''BAND'', lit ''40m'')],
         [(lit ''CALL'', lit ''lu9ang'')]]) = 3
   \<and> (python_tables T \<longrightarrow>
         (upper T s = [] \<longleftrightarrow> s = [])
       \<and> length (csv_lines T
            [[(lit ''CALL'', lit ''W1ABC'')], [(lit ''BAND'', lit ''40m'')],
             [(lit ''CALL'', lit ''lu9ang'')]]) = 3
       \<and> csv_lines T
            [[(lit ''CALL'', lit ''W1ABC'')], [(lit ''BAND'', lit ''40m'')],
             [(lit ''CALL'', lit ''lu9ang'')]]
           = [lit ''indicativo,fecha,banda,modo'', lit ''W1ABC,,?,?'', lit ''LU9ANG,,?,?''])"
proof (intro conjI impI)
  show "total_qsos (compute_stats T qsos) = length qsos"
    by (simp add: compute_stats_sets)
  show "total_qsos (compute_stats T
        [[(lit ''CALL'', lit ''W1ABC'')], [(lit ''BAND'', lit ''40m'')],
         [(lit ''CALL'', lit ''lu9ang'')]]) = 3"
    by (simp add: compute_stats_sets)
  show "hd (csv_lines T qsos) = lit ''indicativo,fecha,banda,modo''"
    unfolding csv_lines_eq by simp
  show "tl (csv_lines T qsos)
       = map (csv_row T) (filter (\<lambda>q. upper T (get q (lit ''CALL'') []) \<noteq> []) qsos)"
    unfolding csv_lines_eq by simp
  show "length (csv_lines T qsos)
       = 1 + length (filter (\<lambda>q. upper T (get q (lit ''CALL'') []) \<noteq> []) qsos)"
    unfolding csv_lines_eq by simp
  assume pt: "python_tables T"
  show "upper T s = [] \<longleftrightarrow> s = []" using pt by (rule upper_Nil_iff)
  show c: "csv_lines T
        [[(lit ''CALL'', lit ''W1ABC'')], [(lit ''BAND'', lit ''40m'')],
         [(lit ''CALL'', lit ''lu9ang'')]]
       = [lit ''indicativo,fecha,banda,modo'', lit ''W1ABC,,?,?'', lit ''LU9ANG,,?,?'']"
    using pt by (simp add: csv_lines_def csv_row_def format_date_def pt_eval)
  show "length (csv_lines T
        [[(lit ''CALL'', lit ''W1ABC'')], [(lit ''BAND'', lit ''40m'')],
         [(lit ''CALL'', lit ''lu9ang'')]]) = 3"
    unfolding c by simp
qed

theorem export_eligibility_witness:
  "python_tables sample_tables
   \<and> total_qsos (compute_stats sample_tables
        [[(lit ''CALL'', lit ''w1abc'')], [(lit ''CALL'', [])]]) = 2
   \<and> tl (csv_lines sample_tables [[(lit ''CALL'', lit ''w1abc'')], [(lit ''CALL'', [])]])
       = [lit ''W1ABC,,?,?'']
   \<and> upper sample_tables [0xDF] \<noteq> []"
proof -
  let ?ex = "[[(lit ''CALL'', lit ''w1abc'')], [(lit ''CALL'', [])]]"
  note t = export_eligibility [of sample_tables ?ex "[0xDF]"]
  have e: "map (csv_row sample_tables)
      (filter (\<lambda>q. upper sample_tables (get q (lit ''CALL'') []) \<noteq> []) ?ex)
      = [lit ''W1ABC,,?,?'']" by code_simp
  have 1: "total_qsos (compute_stats sample_tables ?ex) = 2"
    using t [THEN conjunct1] by simp
  have 2: "tl (csv_lines sample_tables ?ex) = [lit ''W1ABC,,?,?'']"
    using t [THEN conjunct2, THEN conjunct2, THEN conjunct1] unfolding e .
  have 3: "upper sample_tables [0xDF] \<noteq> []"
    using t [THEN conjunct2, THEN conjunct2, THEN conjunct2, THEN conjunct2, THEN conjunct2,
      rule_format, OF python_sample_tables, THEN conjunct1] by simp
  show ?thesis by (intro conjI) (rule python_sample_tables 1 2 3)+
qed

text \<open>
  C6, as the code has it. The date of a row is \<^verbatim>\<open>QSO_DATE\<close> read as \<^verbatim>\<open>YYYYMMDD\<close> and written
  as \<^verbatim>\<open>DD/MM/YYYY\<close> when \<^verbatim>\<open>QSO_DATE\<close> has exactly 8 characters, digits or not, and
  \<^verbatim>\<open>QSO_DATE\<close> unchanged when it has any other length: \<^verbatim>\<open>20240115\<close> becomes
  \<^verbatim>\<open>15/01/2024\<close>, \<^verbatim>\<open>2024\<close> and the empty text stay as they are.
\<close>

theorem date_column:
  "(length d = 8 \<longrightarrow>
      format_date d
        = [d ! 6, d ! 7] @ lit ''/'' @ [d ! 4, d ! 5] @ lit ''/'' @ [d ! 0, d ! 1, d ! 2, d ! 3])
   \<and> (length d \<noteq> 8 \<longrightarrow> format_date d = d)
   \<and> format_date (lit ''20240115'') = lit ''15/01/2024''
   \<and> format_date (lit ''2024'') = lit ''2024''
   \<and> format_date [] = []
   \<and> csv_row T q
       = upper T (get q (lit ''CALL'') []) @ lit '',''
         @ format_date (get q (lit ''QSO_DATE'') [])
         @ lit '','' @ get q (lit ''BAND'') (lit ''?'')
         @ lit '','' @ get q (lit ''MODE'') (lit ''?'')"
proof (intro conjI impI)
  assume "length d = 8"
  then obtain a b c e f g h i where "d = [a, b, c, e, f, g, h, i]"
    by (auto simp: length_Suc_conv eval_nat_numeral)
  then show "format_date d
      = [d ! 6, d ! 7] @ lit ''/'' @ [d ! 4, d ! 5] @ lit ''/'' @ [d ! 0, d ! 1, d ! 2, d ! 3]"
    by (simp add: format_date_def slice_def)
next
  assume "length d \<noteq> 8"
  then show "format_date d = d" by (simp add: format_date_def)
next
  show "format_date (lit ''20240115'') = lit ''15/01/2024''"
    by (simp add: format_date_def slice_def)
  show "format_date (lit ''2024'') = lit ''2024''" by (simp add: format_date_def)
  show "format_date [] = []" by (simp add: format_date_def)
  show "csv_row T q
       = upper T (get q (lit ''CALL'') []) @ lit '',''
         @ format_date (get q (lit ''QSO_DATE'') [])
         @ lit '','' @ get q (lit ''BAND'') (lit ''?'')
         @ lit '','' @ get q (lit ''MODE'') (lit ''?'')"
    by (simp add: csv_row_def)
qed

theorem date_column_witness:
  "length (lit ''19991231'') = 8 \<and> format_date (lit ''19991231'') = lit ''31/12/1999''
   \<and> length (lit ''991231'') \<noteq> 8 \<and> format_date (lit ''991231'') = lit ''991231''"
  using date_column [of "lit ''19991231''"] date_column [of "lit ''991231''"] by simp

theorem date_column_counterexample:
  "length (lit ''ABCDEFGH'') = 8 \<and> \<not> list_all (isdecimal sample_tables) (lit ''ABCDEFGH'')
   \<and> format_date (lit ''ABCDEFGH'') = lit ''GH/EF/ABCD''
   \<and> format_date (lit ''ABCDEFGH'') \<noteq> lit ''ABCDEFGH''
   \<and> csv_row sample_tables [(lit ''CALL'', lit ''X''), (lit ''QSO_DATE'', lit ''ABCDEFGH'')]
       = lit ''X,GH/EF/ABCD,?,?''"
proof -
  have "\<not> list_all (isdecimal sample_tables) (lit ''ABCDEFGH'')" by code_simp
  moreover have "format_date (lit ''ABCDEFGH'') = lit ''GH/EF/ABCD''" by code_simp
  moreover have "csv_row sample_tables
      [(lit ''CALL'', lit ''X''), (lit ''QSO_DATE'', lit ''ABCDEFGH'')]
      = lit ''X,GH/EF/ABCD,?,?''"
    by code_simp
  ultimately show ?thesis by simp
qed

text \<open>
  C7. The export is the header \<^verbatim>\<open>indicativo,fecha,banda,modo\<close> and then one row for each
  record with a \<^verbatim>\<open>CALL\<close>, in the order of the input, each of these lines followed by a
  newline. A row is the \<^verbatim>\<open>CALL\<close> in upper case, the date, the band and the mode, joined by
  commas; the band and the mode are the fields as they are, or \<^verbatim>\<open>?\<close> when the field is
  absent; the date is empty when \<^verbatim>\<open>QSO_DATE\<close> is absent.
\<close>

theorem build_logbook_csv_lines:
  "build_logbook_csv T qsos =
     concat (map (\<lambda>l. l @ newline)
       (lit ''indicativo,fecha,banda,modo''
          # map (csv_row T) (filter (\<lambda>q. upper T (get q (lit ''CALL'') []) \<noteq> []) qsos)))
   \<and> csv_row T q =
       upper T (case map_of q (lit ''CALL'') of Some c \<Rightarrow> c | None \<Rightarrow> []) @ lit '',''
       @ format_date (case map_of q (lit ''QSO_DATE'') of Some d \<Rightarrow> d | None \<Rightarrow> []) @ lit '',''
       @ (case map_of q (lit ''BAND'') of Some b \<Rightarrow> b | None \<Rightarrow> lit ''?'') @ lit '',''
       @ (case map_of q (lit ''MODE'') of Some m \<Rightarrow> m | None \<Rightarrow> lit ''?'')
   \<and> newline = [10]
   \<and> (python_tables T \<longrightarrow>
       build_logbook_csv T
        [[(lit ''CALL'', lit ''w1abc''), (lit ''QSO_DATE'', lit ''20240115''),
          (lit ''BAND'', lit ''40m'')],
         [(lit ''BAND'', lit ''20m'')],
         [(lit ''CALL'', lit ''LU9ANG''), (lit ''BAND'', []), (lit ''MODE'', lit ''SSB'')]]
       = lit ''indicativo,fecha,banda,modo'' @ newline @ lit ''W1ABC,15/01/2024,40m,?'' @ newline
         @ lit ''LU9ANG,,,SSB'' @ newline)"
proof (intro conjI impI)
  show "build_logbook_csv T qsos =
     concat (map (\<lambda>l. l @ newline)
       (lit ''indicativo,fecha,banda,modo''
          # map (csv_row T) (filter (\<lambda>q. upper T (get q (lit ''CALL'') []) \<noteq> []) qsos)))"
    unfolding build_logbook_csv_def csv_lines_eq
    by (rule join_newline) simp
  show "csv_row T q =
       upper T (case map_of q (lit ''CALL'') of Some c \<Rightarrow> c | None \<Rightarrow> []) @ lit '',''
       @ format_date (case map_of q (lit ''QSO_DATE'') of Some d \<Rightarrow> d | None \<Rightarrow> []) @ lit '',''
       @ (case map_of q (lit ''BAND'') of Some b \<Rightarrow> b | None \<Rightarrow> lit ''?'') @ lit '',''
       @ (case map_of q (lit ''MODE'') of Some m \<Rightarrow> m | None \<Rightarrow> lit ''?'')"
    by (simp add: csv_row_def get_def split: option.splits)
  show "newline = [10]" by (simp add: newline_def)
  assume pt: "python_tables T"
  then show "build_logbook_csv T
        [[(lit ''CALL'', lit ''w1abc''), (lit ''QSO_DATE'', lit ''20240115''),
          (lit ''BAND'', lit ''40m'')],
         [(lit ''BAND'', lit ''20m'')],
         [(lit ''CALL'', lit ''LU9ANG''), (lit ''BAND'', []), (lit ''MODE'', lit ''SSB'')]]
       = lit ''indicativo,fecha,banda,modo'' @ newline @ lit ''W1ABC,15/01/2024,40m,?'' @ newline
         @ lit ''LU9ANG,,,SSB'' @ newline"
    by (simp add: build_logbook_csv_def csv_lines_def csv_row_def format_date_def slice_def
        newline_def pt_eval)
qed

theorem build_logbook_csv_lines_witness:
  "python_tables sample_tables
   \<and> build_logbook_csv sample_tables
       [[(lit ''MODE'', lit ''CW'')], [(lit ''CALL'', lit ''k1a''), (lit ''MODE'', lit ''CW'')]]
     = lit ''indicativo,fecha,banda,modo'' @ newline @ lit ''K1A,,?,CW'' @ newline
   \<and> build_logbook_csv sample_tables
        [[(lit ''CALL'', lit ''w1abc''), (lit ''QSO_DATE'', lit ''20240115''),
          (lit ''BAND'', lit ''40m'')],
         [(lit ''BAND'', lit ''20m'')],
         [(lit ''CALL'', lit ''LU9ANG''), (lit ''BAND'', []), (lit ''MODE'', lit ''SSB'')]]
       = lit ''indicativo,fecha,banda,modo'' @ newline @ lit ''W1ABC,15/01/2024,40m,?'' @ newline
         @ lit ''LU9ANG,,,SSB'' @ newline"
proof -
  let ?ex = "[[(lit ''MODE'', lit ''CW'')], [(lit ''CALL'', lit ''k1a''), (lit ''MODE'', lit ''CW'')]]"
  have e: "map (csv_row sample_tables)
      (filter (\<lambda>q. upper sample_tables (get q (lit ''CALL'') []) \<noteq> []) ?ex)
      = [lit ''K1A,,?,CW'']"
    by code_simp
  have "build_logbook_csv sample_tables ?ex =
     concat (map (\<lambda>l. l @ newline)
       (lit ''indicativo,fecha,banda,modo''
          # map (csv_row sample_tables)
              (filter (\<lambda>q. upper sample_tables (get q (lit ''CALL'') []) \<noteq> []) ?ex)))"
    by (rule build_logbook_csv_lines [of sample_tables ?ex, THEN conjunct1])
  then have "build_logbook_csv sample_tables ?ex =
     concat (map (\<lambda>l. l @ newline) [lit ''indicativo,fecha,banda,modo'', lit ''K1A,,?,CW''])"
    by (simp only: e)
  then have 1: "build_logbook_csv sample_tables ?ex
     = lit ''indicativo,fecha,banda,modo'' @ newline @ lit ''K1A,,?,CW'' @ newline" by simp
  note 2 = build_logbook_csv_lines [of sample_tables "[]" "[]", THEN conjunct2, THEN conjunct2,
      THEN conjunct2, rule_format, OF python_sample_tables]
  show ?thesis by (intro conjI) (rule python_sample_tables 1 2)+
qed

text \<open>
  C8. When the input does not contain \<^verbatim>\<open>RESULT=FAIL\<close>: if it contains \<^verbatim>\<open>ADIF=\<close>, the
  payload is the decoded text after the first \<^verbatim>\<open>ADIF=\<close>; if it does not, the payload is
  the whole input. In both cases the result is that of the loop over the chunks of the
  payload: no protocol error is raised, and the records are returned unless the loop
  itself fails on a chunk.
\<close>

theorem adif_envelope:
  assumes "\<not> (\<exists>a b. raw = a @ lit ''RESULT=FAIL'' @ b)"
  shows "(\<forall>pre rest. raw = pre @ lit ''ADIF='' @ rest
              \<and> \<not> (\<exists>a b. pre @ lit ''ADIF'' = a @ lit ''ADIF='' @ b)
            \<longrightarrow> adif_payload unquote raw = unquote rest
                \<and> parse_adif T unquote raw = parse_records T (split_eor (unquote rest)) [])
       \<and> (\<not> (\<exists>a b. raw = a @ lit ''ADIF='' @ b)
            \<longrightarrow> adif_payload unquote raw = raw
                \<and> parse_adif T unquote raw = parse_records T (split_eor raw) [])
       \<and> (\<forall>msg. parse_adif T unquote raw \<noteq> Inl (ProtocolError msg))
       \<and> (\<not> list_ex (overlong T) (split_eor (adif_payload unquote raw))
            \<longrightarrow> (\<exists>qsos. parse_adif T unquote raw = Inr qsos))"
proof (intro conjI allI impI)
  from assms have nf: "\<not> contains (lit ''RESULT=FAIL'') raw" unfolding contains_iff .
  then have p: "parse_adif T unquote raw
      = parse_records T (split_eor (adif_payload unquote raw)) []"
    by (rule parse_adif_plain)
  {
    fix pre rest
    assume h: "raw = pre @ lit ''ADIF='' @ rest
       \<and> \<not> (\<exists>a b. pre @ lit ''ADIF'' = a @ lit ''ADIF='' @ b)"
    then have "\<not> contains (lit ''ADIF='') (pre @ lit ''ADIF'')" unfolding contains_iff by blast
    then have "search_adif (pre @ lit ''ADIF='' @ rest) = Some rest" by (rule search_adif_first)
    with h show 1: "adif_payload unquote raw = unquote rest" by (simp add: adif_payload_def)
    show "parse_adif T unquote raw = parse_records T (split_eor (unquote rest)) []"
      unfolding p 1 ..
  }
  {
    assume "\<not> (\<exists>a b. raw = a @ lit ''ADIF='' @ b)"
    then have "search_adif raw = None"
      unfolding search_adif_None_iff contains_iff .
    then show 2: "adif_payload unquote raw = raw" by (simp add: adif_payload_def)
    show "parse_adif T unquote raw = parse_records T (split_eor raw) []"
      unfolding p 2 ..
  }
  {
    fix msg
    show "parse_adif T unquote raw \<noteq> Inl (ProtocolError msg)"
      unfolding p parse_records_Inl by simp
  }
  {
    assume "\<not> list_ex (overlong T) (split_eor (adif_payload unquote raw))"
    then show "\<exists>qsos. parse_adif T unquote raw = Inr qsos"
      unfolding p parse_records_total .
  }
qed

theorem adif_envelope_witness:
  "parse_adif sample_tables rev (lit ''RESULT=OK&'' @ lit ''ADIF='' @ lit ''>roe<X>1:LLAC<'')
     = Inr [[(lit ''CALL'', lit ''X'')]]
   \<and> parse_adif sample_tables rev (lit ''<CALL:1>X<eor>'') = Inr [[(lit ''CALL'', lit ''X'')]]"
proof -
  let ?T = "sample_tables"
  have nf1: "\<not> (\<exists>a b. lit ''RESULT=OK&'' @ lit ''ADIF='' @ lit ''>roe<X>1:LLAC<''
      = a @ lit ''RESULT=FAIL'' @ b)"
    unfolding contains_iff [symmetric] by code_simp
  have first: "\<not> (\<exists>a b. lit ''RESULT=OK&'' @ lit ''ADIF'' = a @ lit ''ADIF='' @ b)"
    unfolding contains_iff [symmetric] by code_simp
  have r1: "parse_records ?T (split_eor (rev (lit ''>roe<X>1:LLAC<''))) []
      = Inr [[(lit ''CALL'', lit ''X'')]]"
    by code_simp
  have "parse_adif ?T rev (lit ''RESULT=OK&'' @ lit ''ADIF='' @ lit ''>roe<X>1:LLAC<'')
      = parse_records ?T (split_eor (rev (lit ''>roe<X>1:LLAC<''))) []"
    by (rule adif_envelope [OF nf1, of rev ?T, THEN conjunct1, rule_format,
      of "lit ''RESULT=OK&''" "lit ''>roe<X>1:LLAC<''", THEN conjunct2])
      (intro conjI refl first)
  then have 1: "parse_adif ?T rev (lit ''RESULT=OK&'' @ lit ''ADIF='' @ lit ''>roe<X>1:LLAC<'')
      = Inr [[(lit ''CALL'', lit ''X'')]]" by (simp only: r1)
  have nf2: "\<not> (\<exists>a b. lit ''<CALL:1>X<eor>'' = a @ lit ''RESULT=FAIL'' @ b)"
    unfolding contains_iff [symmetric] by code_simp
  have none: "\<not> (\<exists>a b. lit ''<CALL:1>X<eor>'' = a @ lit ''ADIF='' @ b)"
    unfolding contains_iff [symmetric] by code_simp
  have r2: "parse_records ?T (split_eor (lit ''<CALL:1>X<eor>'')) []
      = Inr [[(lit ''CALL'', lit ''X'')]]"
    by code_simp
  have "parse_adif ?T rev (lit ''<CALL:1>X<eor>'')
      = parse_records ?T (split_eor (lit ''<CALL:1>X<eor>'')) []"
    by (rule adif_envelope [OF nf2, of rev ?T, THEN conjunct2, THEN conjunct1, rule_format,
      THEN conjunct2]) (rule none)
  then have 2: "parse_adif ?T rev (lit ''<CALL:1>X<eor>'') = Inr [[(lit ''CALL'', lit ''X'')]]"
    by (simp only: r2)
  show ?thesis by (intro conjI) (rule 1 2)+
qed

lemma findall_fields_needs:
  "findall_fields T chunk \<noteq> [] \<Longrightarrow>
     cp CHR ''<'' \<in> set chunk \<and> cp CHR '':'' \<in> set chunk \<and> cp CHR ''>'' \<in> set chunk"
proof -
  assume "findall_fields T chunk \<noteq> []"
  then obtain n l v where "(n, l, v) \<in> set (findall_fields T chunk)"
    by (cases "findall_fields T chunk") auto
  from findall_fields_shape [OF this] obtain pre ty rest where
    "chunk = pre @ tag n l ty @ v @ rest" by blast
  then show ?thesis by (simp add: tag_def)
qed

lemma contains_set: "contains p s \<Longrightarrow> set p \<subseteq> set s"
  unfolding contains_iff by auto

lemma overlong_iff:
  "overlong T chunk \<longleftrightarrow>
     \<not> list_all (isspace T) chunk
     \<and> (\<exists>n l v. (n, l, v) \<in> set (findall_fields T chunk)
           \<and> 0 < max_str_digits T \<and> max_str_digits T < length l)"
  by (auto simp: overlong_def too_many_digits_def list_ex_iff)

lemma pt_not_overlong:
  assumes "python_tables T"
    and "\<forall>n l v. (n, l, v) \<in> set (findall_fields T chunk) \<longrightarrow> length l < 640"
  shows "\<not> overlong T chunk"
proof
  assume "overlong T chunk"
  then obtain n l v where m: "(n, l, v) \<in> set (findall_fields T chunk)"
    and "0 < max_str_digits T" and lt: "max_str_digits T < length l"
    unfolding overlong_iff by blast
  with assms(1) have "640 \<le> max_str_digits T" by (auto simp: python_tables_def)
  with lt assms(2) m show False by fastforce
qed

text \<open>
  C9, as the code has it. Parsing fails with a protocol error if and only if the input
  contains \<^verbatim>\<open>RESULT=FAIL\<close>. For every other input it returns a sequence of records, unless
  a chunk that is not made of whitespace only has a field whose declared length has more
  digits than \<^verbatim>\<open>int\<close> converts (4300 by default, no limit when the limit is set to 0):
  then \<^verbatim>\<open>int\<close> raises a \<^verbatim>\<open>ValueError\<close> that nothing catches. With the tables of Python, a
  chunk whose declared lengths have fewer than 640 digits never does so. A chunk without
  \<^verbatim>\<open><\<close>, without \<^verbatim>\<open>:\<close> or without \<^verbatim>\<open>>\<close> has no field, and tags that are not well formed give
  nothing: the payload \<^verbatim>\<open><CALL>W1ABC<BAND:x>40m<:3>abc<MODE:3<eor>\<close> gives no record.
\<close>

theorem parse_adif_total:
  "((\<exists>msg. parse_adif T unquote raw = Inl (ProtocolError msg))
      \<longleftrightarrow> (\<exists>a b. raw = a @ lit ''RESULT=FAIL'' @ b))
   \<and> (parse_adif T unquote raw = Inl ValueError
      \<longleftrightarrow> \<not> (\<exists>a b. raw = a @ lit ''RESULT=FAIL'' @ b)
          \<and> list_ex (overlong T) (split_eor (adif_payload unquote raw)))
   \<and> ((\<exists>qsos. parse_adif T unquote raw = Inr qsos)
      \<longleftrightarrow> \<not> (\<exists>a b. raw = a @ lit ''RESULT=FAIL'' @ b)
          \<and> \<not> list_ex (overlong T) (split_eor (adif_payload unquote raw)))
   \<and> (overlong T chunk \<longleftrightarrow>
        \<not> list_all (isspace T) chunk
        \<and> (\<exists>n l v. (n, l, v) \<in> set (findall_fields T chunk)
              \<and> 0 < max_str_digits T \<and> max_str_digits T < length l))
   \<and> (cp CHR ''<'' \<notin> set chunk \<or> cp CHR '':'' \<notin> set chunk \<or> cp CHR ''>'' \<notin> set chunk
        \<longrightarrow> findall_fields T chunk = [])
   \<and> (python_tables T \<longrightarrow>
        ((\<forall>n l v. (n, l, v) \<in> set (findall_fields T chunk) \<longrightarrow> length l < 640)
            \<longrightarrow> \<not> overlong T chunk)
        \<and> parse_adif T unquote (lit ''<CALL>W1ABC<BAND:x>40m<:3>abc<MODE:3<eor>'') = Inr [])"
proof (intro conjI)
  let ?fail = "\<exists>a b. raw = a @ lit ''RESULT=FAIL'' @ b"
  let ?chunks = "split_eor (adif_payload unquote raw)"
  have f: "parse_adif T unquote raw
      = Inl (ProtocolError (case search_reason raw of Some msg \<Rightarrow> msg
                            | None \<Rightarrow> lit ''desconocido''))" if ?fail
    using that unfolding contains_iff [symmetric] by (simp add: parse_adif_def)
  have p: "parse_adif T unquote raw = parse_records T ?chunks []" if "\<not> ?fail"
    using that unfolding contains_iff [symmetric] by (rule parse_adif_plain)
  show "(\<exists>msg. parse_adif T unquote raw = Inl (ProtocolError msg)) \<longleftrightarrow> ?fail"
  proof (cases ?fail)
    case True
    with f show ?thesis by simp
  next
    case False
    have "parse_records T ?chunks [] \<noteq> Inl (ProtocolError msg)" for msg
      unfolding parse_records_Inl by simp
    with False p show ?thesis by simp
  qed
  show "parse_adif T unquote raw = Inl ValueError
      \<longleftrightarrow> \<not> ?fail \<and> list_ex (overlong T) ?chunks"
  proof (cases ?fail)
    case True
    with f show ?thesis by simp
  next
    case False
    with p show ?thesis by (simp add: parse_records_Inl)
  qed
  show "(\<exists>qsos. parse_adif T unquote raw = Inr qsos)
      \<longleftrightarrow> \<not> ?fail \<and> \<not> list_ex (overlong T) ?chunks"
  proof (cases ?fail)
    case True
    with f show ?thesis by simp
  next
    case False
    with p show ?thesis by (simp add: parse_records_total)
  qed
  show "overlong T chunk \<longleftrightarrow>
        \<not> list_all (isspace T) chunk
        \<and> (\<exists>n l v. (n, l, v) \<in> set (findall_fields T chunk)
              \<and> 0 < max_str_digits T \<and> max_str_digits T < length l)"
    by (rule overlong_iff)
  show "cp CHR ''<'' \<notin> set chunk \<or> cp CHR '':'' \<notin> set chunk \<or> cp CHR ''>'' \<notin> set chunk
        \<longrightarrow> findall_fields T chunk = []"
    using findall_fields_needs by blast
  show "python_tables T \<longrightarrow>
        ((\<forall>n l v. (n, l, v) \<in> set (findall_fields T chunk) \<longrightarrow> length l < 640)
            \<longrightarrow> \<not> overlong T chunk)
        \<and> parse_adif T unquote (lit ''<CALL>W1ABC<BAND:x>40m<:3>abc<MODE:3<eor>'') = Inr []"
  proof (intro impI conjI)
    assume pt: "python_tables T"
    show "parse_adif T unquote (lit ''<CALL>W1ABC<BAND:x>40m<:3>abc<MODE:3<eor>'') = Inr []"
      using pt by (simp add: pt_eval)
    assume "\<forall>n l v. (n, l, v) \<in> set (findall_fields T chunk) \<longrightarrow> length l < 640"
    with pt show "\<not> overlong T chunk" by (rule pt_not_overlong)
  qed
qed

theorem parse_adif_total_witness:
  "python_tables sample_tables
   \<and> (\<exists>qsos. parse_adif sample_tables id (lit ''<<<:::>>>12<a:>'') = Inr qsos)
   \<and> (\<exists>msg. parse_adif sample_tables id (lit ''xRESULT=FAILy'') = Inl (ProtocolError msg))
   \<and> findall_fields sample_tables (lit ''CALL:3>ABC'') = []
   \<and> parse_adif sample_tables id (lit ''<CALL>W1ABC<BAND:x>40m<:3>abc<MODE:3<eor>'') = Inr []"
proof -
  let ?T = "sample_tables"
  note t1 = parse_adif_total [of ?T id "lit ''<<<:::>>>12<a:>''" "lit ''CALL:3>ABC''"]
  note t2 = parse_adif_total [of ?T id "lit ''xRESULT=FAILy''" "lit ''CALL:3>ABC''"]
  have nf: "\<not> (\<exists>a b. lit ''<<<:::>>>12<a:>'' = a @ lit ''RESULT=FAIL'' @ b)"
    unfolding contains_iff [symmetric] by code_simp
  have no: "\<not> list_ex (overlong ?T) (split_eor (adif_payload id (lit ''<<<:::>>>12<a:>'')))"
    by code_simp
  have 1: "\<exists>qsos. parse_adif ?T id (lit ''<<<:::>>>12<a:>'') = Inr qsos"
    unfolding t1 [THEN conjunct2, THEN conjunct2, THEN conjunct1] using nf no by (rule conjI)
  have "lit ''xRESULT=FAILy'' = lit ''x'' @ lit ''RESULT=FAIL'' @ lit ''y''" by simp
  then have "\<exists>a b. lit ''xRESULT=FAILy'' = a @ lit ''RESULT=FAIL'' @ b" by blast
  then have 2: "\<exists>msg. parse_adif ?T id (lit ''xRESULT=FAILy'') = Inl (ProtocolError msg)"
    unfolding t2 [THEN conjunct1] .
  have "cp CHR ''<'' \<notin> set (lit ''CALL:3>ABC'')" by simp
  then have 3: "findall_fields ?T (lit ''CALL:3>ABC'') = []"
    using t2 [THEN conjunct2, THEN conjunct2, THEN conjunct2, THEN conjunct2, THEN conjunct1]
    by (elim impE) (rule disjI1)
  note 4 = t2 [THEN conjunct2, THEN conjunct2, THEN conjunct2, THEN conjunct2, THEN conjunct2,
    rule_format, OF python_sample_tables, THEN conjunct2]
  show ?thesis by (intro conjI) (rule python_sample_tables 1 2 3 4)+
qed

theorem parse_adif_total_counterexample:
  "\<not> contains (lit ''RESULT=FAIL'') (lit ''<A:'' @ replicate 4301 (cp CHR ''1'') @ lit ''>x'')
   \<and> max_str_digits sample_tables = 4300
   \<and> findall_fields sample_tables (lit ''<A:'' @ replicate 4301 (cp CHR ''1'') @ lit ''>x'')
       = [(lit ''A'', replicate 4301 (cp CHR ''1''), lit ''x'')]
   \<and> parse_adif sample_tables id (lit ''<A:'' @ replicate 4301 (cp CHR ''1'') @ lit ''>x'')
       = Inl ValueError"
proof -
  let ?T = "sample_tables"
  let ?l = "replicate 4301 (cp CHR ''1'')"
  let ?raw = "lit ''<A:'' @ ?l @ lit ''>x''"
  have s: "set ?raw = {cp CHR ''<'', cp CHR ''A'', cp CHR '':'', cp CHR ''1'', cp CHR ''>'',
      cp CHR ''x''}" by auto
  have 1: "\<not> contains (lit ''RESULT=FAIL'') ?raw"
  proof
    assume "contains (lit ''RESULT=FAIL'') ?raw"
    then have "set (lit ''RESULT=FAIL'') \<subseteq> set ?raw" by (rule contains_set)
    then show False unfolding s by simp
  qed
  have "\<not> contains (lit ''ADIF='') ?raw"
  proof
    assume "contains (lit ''ADIF='') ?raw"
    then have "set (lit ''ADIF='') \<subseteq> set ?raw" by (rule contains_set)
    then show False unfolding s by simp
  qed
  then have "search_adif ?raw = None" unfolding search_adif_None_iff .
  then have p: "adif_payload id ?raw = ?raw" by (simp add: adif_payload_def)
  have "split_from [] ?raw = [[] @ ?raw]"
    by (rule split_from_no_r) (simp_all only: s, simp_all)
  then have c: "split_eor (adif_payload id ?raw) = [?raw]" unfolding p split_eor_def by simp
  have 2: "max_str_digits ?T = 4300" by (simp add: sample_tables_def)
  have wf: "well_formed_tag ?T (lit ''A'') ?l []"
    by (simp add: well_formed_tag_def sample_tables_def list_all_iff ascii_word_def
        ascii_digit_def cp_def)
  have e: "[] @ tag (lit ''A'') ?l [] @ lit ''x'' @ [] = ?raw" by (simp add: tag_def)
  have "findall_fields ?T ([] @ tag (lit ''A'') ?l [] @ lit ''x'' @ [])
      = findall_fields ?T [] @ (lit ''A'', ?l, lit ''x'') # findall_fields ?T []"
    by (rule findall_fields_tag [OF python_sample_tables wf]) simp_all
  then have 3: "findall_fields ?T ?raw = [(lit ''A'', ?l, lit ''x'')]" unfolding e by simp
  have ns: "\<not> list_all (isspace ?T) ?raw"
    by (simp add: sample_tables_def ascii_space_def cp_def)
  have "too_many_digits ?T ?l" by (simp add: too_many_digits_def 2)
  with ns have "overlong ?T ?raw" unfolding overlong_def 3 by simp
  then have "parse_records ?T [?raw] [] = Inl ValueError"
    unfolding parse_records_Inl by simp
  with 1 have 4: "parse_adif ?T id ?raw = Inl ValueError"
    unfolding parse_adif_plain [OF 1] c by simp
  show ?thesis by (intro conjI) (rule 1 2 3 4)+
qed

lemma length_upper:
  "\<forall>c. upper_char T c \<noteq> [] \<Longrightarrow> length s \<le> length (upper T s)"
proof (induction s)
  case Nil
  then show ?case by simp
next
  case (Cons c s)
  from Cons.prems have "1 \<le> length (upper_char T c)"
    by (cases "upper_char T c") auto
  moreover have "upper T (c # s) = upper_char T c @ upper T s" by (simp add: upper_def)
  ultimately show ?case using Cons by simp
qed

lemma upper_fixed:
  assumes ne: "\<forall>c. upper_char T c \<noteq> []"
  shows "upper T k = k \<Longrightarrow> list_all (\<lambda>c. upper_char T c = [c]) k"
proof (induction k)
  case Nil
  then show ?case by simp
next
  case (Cons c k)
  have u: "upper T (c # k) = upper_char T c @ upper T k" by (simp add: upper_def)
  from ne obtain d r where d: "upper_char T c = d # r" by (cases "upper_char T c") auto
  from Cons.prems have e: "d = c" "r @ upper T k = k" unfolding u d by simp_all
  from e(2) have "length r + length (upper T k) = length k"
    by (metis length_append)
  with length_upper [OF ne, of k] have "length r = 0" by linarith
  then have "r = []" by simp
  with e d have "upper_char T c = [c]" "upper T k = k" by simp_all
  with Cons.IH show ?case by simp
qed

lemma parse_adif_record:
  assumes "parse_adif T unquote raw = Inr qsos" and "q \<in> set qsos"
  shows "\<exists>chunk \<in> set (split_eor (adif_payload unquote raw)).
           build_qso T (findall_fields T chunk) [] = Inr q"
proof -
  let ?keep = "\<lambda>r. \<not> list_all (isspace T) r \<and> findall_fields T r \<noteq> []"
  from parse_records_Inr [OF parse_adif_Inr [OF assms(1)]]
  have m: "map Inr qsos = map (\<lambda>r. build_qso T (findall_fields T r) [])
      (filter ?keep (split_eor (adif_payload unquote raw)))" by simp
  from assms(2) have "Inr q \<in> set (map Inr qsos :: (error + qso) list)" by (simp add: image_iff)
  then have "Inr q \<in> set (map (\<lambda>r. build_qso T (findall_fields T r) [])
      (filter ?keep (split_eor (adif_payload unquote raw))))" by (simp only: m)
  then show ?thesis by auto
qed

text \<open>
  C10. In every record the parser returns, the field names are distinct, not empty and in
  upper case: a name is its own upper case, code point by code point, and has none of the
  letters \<^verbatim>\<open>a\<close> to \<^verbatim>\<open>z\<close>. The value under a name is that of the last field of the record's
  chunk whose name is this one once in upper case: the text that follows its tag, cut to
  the declared length and trimmed. It contains no \<^verbatim>\<open><\<close>, is not longer than the declared
  length, and neither begins nor ends with whitespace.
\<close>

theorem record_invariant:
  assumes "python_tables T"
    and "parse_adif T unquote raw = Inr qsos" and "q \<in> set qsos" and "map_of q k = Some v"
  shows "upper T k = k \<and> k \<noteq> []
       \<and> list_all (\<lambda>c. upper_char T c = [c]) k
       \<and> list_all (\<lambda>c. \<not> (97 \<le> c \<and> c \<le> 122)) k
       \<and> distinct (map fst q)
       \<and> cp CHR ''<'' \<notin> set v
       \<and> strip T v = v \<and> (v = [] \<or> (\<not> isspace T (hd v) \<and> \<not> isspace T (last v)))
       \<and> (\<exists>chunk n l x. chunk \<in> set (split_eor (adif_payload unquote raw))
             \<and> build_qso T (findall_fields T chunk) [] = Inr q
             \<and> last_field T k (findall_fields T chunk) = Some (n, l, x)
             \<and> k = upper T n
             \<and> v = strip T (take (digits_value T l) x)
             \<and> length v \<le> digits_value T l)"
proof -
  note pt = assms(1)
  from parse_adif_record [OF assms(2,3)]
  obtain chunk where chunk: "chunk \<in> set (split_eor (adif_payload unquote raw))"
    and q: "build_qso T (findall_fields T chunk) [] = Inr q" by blast
  from assms(4) obtain n l x where lf: "last_field T k (findall_fields T chunk) = Some (n, l, x)"
    and v: "v = strip T (take (digits_value T l) x)"
    unfolding map_of_build_qso [OF q] by (auto split: option.splits)
  from last_field_Some [OF lf] have mem: "(n, l, x) \<in> set (findall_fields T chunk)"
    and k: "upper T n = k" by simp_all
  from findall_fields_shape [OF mem] have wf: "n \<noteq> []"
    and nx: "cp CHR ''<'' \<notin> set x"
    by (auto simp: well_formed_tag_def)
  from pt have ne: "\<forall>c. upper_char T c \<noteq> []" by (simp add: python_tables_def)
  have 1: "upper T k = k" unfolding k [symmetric] using pt by (rule upper_idem)
  have 2: "k \<noteq> []" using wf k upper_Nil_iff [OF pt, of n] by simp
  have 3: "list_all (\<lambda>c. upper_char T c = [c]) k" using ne 1 by (rule upper_fixed)
  have lc: "list_all (\<lambda>c. \<not> (97 \<le> c \<and> c \<le> 122)) k"
    unfolding list_all_iff
  proof (intro ballI notI)
    fix c assume c: "c \<in> set k" and r: "97 \<le> c \<and> c \<le> 122"
    from 3 c have "upper_char T c = [c]" by (simp add: list_all_iff)
    moreover from r have "upper_char T c = [ascii_upper c]"
      by (intro python_tables_ascii [OF pt]) simp
    ultimately have "c - 32 = c" using r by (simp add: ascii_upper_def)
    with r show False by linarith
  qed
  have 4: "distinct (map fst q)" by (rule distinct_build_qso [OF q]) simp
  have "set v \<subseteq> set (take (digits_value T l) x)" unfolding v by (rule set_strip)
  also have "\<dots> \<subseteq> set x" by (rule set_take_subset)
  finally have 5: "cp CHR ''<'' \<notin> set v" using nx by blast
  have 6: "strip T v = v" unfolding v by (rule strip_idem)
  have 7: "v = [] \<or> (\<not> isspace T (hd v) \<and> \<not> isspace T (last v))"
    using strip_not_space [of T "take (digits_value T l) x"] unfolding v by blast
  have "length v \<le> length (take (digits_value T l) x)" unfolding v by (rule length_strip)
  then have 8: "length v \<le> digits_value T l" by simp
  from chunk q lf k v 8
  have 9: "\<exists>chunk n l x. chunk \<in> set (split_eor (adif_payload unquote raw))
             \<and> build_qso T (findall_fields T chunk) [] = Inr q
             \<and> last_field T k (findall_fields T chunk) = Some (n, l, x)
             \<and> k = upper T n
             \<and> v = strip T (take (digits_value T l) x)
             \<and> length v \<le> digits_value T l" by blast
  show ?thesis by (intro conjI) (rule 1 2 3 lc 4 5 6 7 9)+
qed

theorem record_invariant_witness:
  "python_tables sample_tables
   \<and> parse_adif sample_tables id
       (lit ''<caf'' @ [0xE9] @ lit '':2>ab<Band:9>40m <CAF'' @ [0xC9] @ lit '':'' @ [0x663]
          @ lit ''>'' @ [0xA0] @ lit ''xyz <eor>'')
     = Inr [[(lit ''CAF'' @ [0xC9], lit ''xy''), (lit ''BAND'', lit ''40m'')]]
   \<and> last_field sample_tables (lit ''CAF'' @ [0xC9])
        (findall_fields sample_tables
           (lit ''<caf'' @ [0xE9] @ lit '':2>ab<Band:9>40m <CAF'' @ [0xC9] @ lit '':'' @ [0x663]
              @ lit ''>'' @ [0xA0] @ lit ''xyz ''))
       = Some (lit ''CAF'' @ [0xC9], [0x663], [0xA0] @ lit ''xyz '')
   \<and> upper sample_tables (lit ''CAF'' @ [0xC9]) = lit ''CAF'' @ [0xC9]
   \<and> cp CHR ''<'' \<notin> set (lit ''xy'') \<and> strip sample_tables (lit ''xy'') = lit ''xy''"
proof -
  let ?T = "sample_tables"
  let ?k = "lit ''CAF'' @ [0xC9]"
  let ?q = "[(?k, lit ''xy''), (lit ''BAND'', lit ''40m'')]"
  let ?chunk = "lit ''<caf'' @ [0xE9] @ lit '':2>ab<Band:9>40m <CAF'' @ [0xC9] @ lit '':''
      @ [0x663] @ lit ''>'' @ [0xA0] @ lit ''xyz ''"
  have 1: "parse_adif ?T id
       (lit ''<caf'' @ [0xE9] @ lit '':2>ab<Band:9>40m <CAF'' @ [0xC9] @ lit '':'' @ [0x663]
          @ lit ''>'' @ [0xA0] @ lit ''xyz <eor>'') = Inr [?q]" by code_simp
  have 2: "?q \<in> set [?q]" by simp
  have 3: "map_of ?q ?k = Some (lit ''xy'')" by simp
  have 4: "last_field ?T ?k (findall_fields ?T ?chunk)
       = Some (?k, [0x663], [0xA0] @ lit ''xyz '')" by code_simp
  note t = record_invariant [OF python_sample_tables 1 2 3]
  note 5 = t [THEN conjunct1]
  note 6 = t [THEN conjunct2, THEN conjunct2, THEN conjunct2, THEN conjunct2, THEN conjunct2,
    THEN conjunct1]
  note 7 = t [THEN conjunct2, THEN conjunct2, THEN conjunct2, THEN conjunct2, THEN conjunct2,
    THEN conjunct2, THEN conjunct1]
  show ?thesis by (intro conjI) (rule python_sample_tables 1 4 5 6 7)+
qed

end
